theory Spec2Isabelle
  imports Complex_Main "HOL-Library.Word" "HOL-Library.Multiset"
    "HOL-Library.Char_ord" "HOL-Library.List_Lexorder" "HOL-Library.Product_Lexorder"
begin

unbundle bit_operations_syntax

text \<open>
  A shallow embedding of the graph core of \<^verbatim>\<open>standalone_scripts/build_graph.py\<close>: URL
  canonicalisation, fingerprints, duplicate resolution, similarity, edges, groups and the
  tail of \<^verbatim>\<open>main\<close> that assembles them. The definitions come first, the properties
  follow.
\<close>

section \<open>Strings\<close>

text \<open>
  A Python \<^verbatim>\<open>str\<close> is modelled by \<open>string\<close>, whose characters are the code points
  0 to 255. \<^verbatim>\<open>str.lower\<close> on this range maps A-Z and the Latin-1 capitals (U+00C0 to
  U+00DE, without the multiplication sign U+00D7) to the letter 32 places further.
\<close>

definition lower_char :: "char \<Rightarrow> char" where
  "lower_char c =
     (let n = (of_char c :: nat)
      in if (65 \<le> n \<and> n \<le> 90) \<or> (192 \<le> n \<and> n \<le> 222 \<and> n \<noteq> 215)
         then char_of (n + 32) else c)"

definition lower :: "string \<Rightarrow> string" where
  "lower s = map lower_char s"

definition startswith :: "string \<Rightarrow> string \<Rightarrow> bool" where
  "startswith s p = (take (length p) s = p)"

definition endswith :: "string \<Rightarrow> string \<Rightarrow> bool" where
  "endswith s p = (length p \<le> length s \<and> drop (length s - length p) s = p)"

text \<open>
  \<^verbatim>\<open>s.rsplit(c, 1)\<close> and \<^verbatim>\<open>s.split(c, 1)\<close> for a string that contains \<open>c\<close>: the parts
  around the last and around the first \<open>c\<close>.
\<close>

definition rsplit1 :: "char \<Rightarrow> string \<Rightarrow> string \<times> string" where
  "rsplit1 c s =
     (rev (tl (dropWhile (\<lambda>x. x \<noteq> c) (rev s))), rev (takeWhile (\<lambda>x. x \<noteq> c) (rev s)))"

definition split1 :: "char \<Rightarrow> string \<Rightarrow> string \<times> string" where
  "split1 c s = (takeWhile (\<lambda>x. x \<noteq> c) s, tl (dropWhile (\<lambda>x. x \<noteq> c) s))"

section \<open>URL canonicalizer\<close>

text \<open>
  \<^verbatim>\<open>canonicalize_url\<close> calls four functions of \<^verbatim>\<open>urllib.parse\<close>, which are not part of
  the repository. They are a parameter of the model, the record \<open>urllib\<close>:
  \<open>urlparse\<close> returns \<open>None\<close> where the library raises (the only call inside the
  \<^verbatim>\<open>try\<close> block), the other three are total on the strings modelled here.
\<close>

record parse_result =
  pr_scheme :: string
  pr_netloc :: string
  pr_path :: string
  pr_params :: string
  pr_query :: string
  pr_fragment :: string

record urllib =
  urlparse :: "string \<Rightarrow> parse_result option"
  parse_qsl :: "string \<Rightarrow> (string \<times> string) list"
  urlencode :: "(string \<times> string) list \<Rightarrow> string"
  urlunparse :: "parse_result \<Rightarrow> string"

definition TRACKING_PARAMS :: "string list" where
  "TRACKING_PARAMS =
     [''fbclid'', ''gclid'', ''igshid'', ''mc_cid'', ''mc_eid'', ''msclkid'', ''ref'', ''ref_src'',
      ''utm_campaign'', ''utm_content'', ''utm_medium'', ''utm_source'', ''utm_term'']"

definition strip_port :: "string \<Rightarrow> string \<Rightarrow> string" where
  "strip_port scheme netloc =
     (if CHR '':'' \<in> set netloc then
        (case rsplit1 CHR '':'' netloc of (host, port) \<Rightarrow>
           if (scheme = ''http'' \<and> port = ''80'') \<or> (scheme = ''https'' \<and> port = ''443'')
           then host else netloc)
      else netloc)"

definition strip_www :: "string \<Rightarrow> string" where
  "strip_www netloc = (if startswith netloc ''www.'' then drop 4 netloc else netloc)"

definition strip_slash :: "string \<Rightarrow> string" where
  "strip_slash path = (if path \<noteq> ''/'' \<and> endswith path ''/'' then butlast path else path)"

definition is_tracking :: "string \<Rightarrow> bool" where
  "is_tracking key = (let key_l = lower key in key_l \<in> set TRACKING_PARAMS \<or> startswith key_l ''utm_'')"

definition canonicalize_url :: "urllib \<Rightarrow> string \<Rightarrow> string" where
  "canonicalize_url L url =
     (case urlparse L url of
        None \<Rightarrow> url
      | Some parsed \<Rightarrow>
          let scheme = lower (if pr_scheme parsed \<noteq> [] then pr_scheme parsed else ''https'');
              netloc = strip_www (strip_port scheme (lower (pr_netloc parsed)));
              path = strip_slash (if pr_path parsed \<noteq> [] then pr_path parsed else ''/'');
              params = sort (filter (\<lambda>(key, value). \<not> is_tracking key) (parse_qsl L (pr_query parsed)));
              query = urlencode L params
          in urlunparse L \<lparr>pr_scheme = scheme, pr_netloc = netloc, pr_path = path,
               pr_params = [], pr_query = query, pr_fragment = []\<rparr>)"

subsection \<open>A model of urllib.parse\<close>

text \<open>
  For closed examples the library is instantiated by \<open>py_urllib\<close>, which follows
  \<^verbatim>\<open>urlsplit\<close>, \<^verbatim>\<open>urlparse\<close>, \<^verbatim>\<open>urlunparse\<close>, \<^verbatim>\<open>parse_qsl\<close> (with
  \<^verbatim>\<open>keep_blank_values=True\<close>) and \<^verbatim>\<open>urlencode\<close> (with \<^verbatim>\<open>doseq=True\<close>) of
  CPython 3.11 on strings of code points below 256. \<^verbatim>\<open>urlsplit\<close> raises ValueError when
  exactly one of the brackets of an IPv6 host is present. A percent escape of a byte from
  0x80 on, which CPython decodes as UTF-8, is outside the model and is left as it stands.
\<close>

definition is_ascii_alpha :: "char \<Rightarrow> bool" where
  "is_ascii_alpha c = (let n = (of_char c :: nat) in (65 \<le> n \<and> n \<le> 90) \<or> (97 \<le> n \<and> n \<le> 122))"

definition is_digit :: "char \<Rightarrow> bool" where
  "is_digit c = (let n = (of_char c :: nat) in 48 \<le> n \<and> n \<le> 57)"

definition is_scheme_char :: "char \<Rightarrow> bool" where
  "is_scheme_char c = (is_ascii_alpha c \<or> is_digit c \<or> c \<in> set ''+-.'')"

definition uses_netloc :: "string list" where
  "uses_netloc = [[], ''ftp'', ''http'', ''gopher'', ''nntp'', ''telnet'', ''imap'', ''wais'',
     ''file'', ''mms'', ''https'', ''shttp'', ''snews'', ''prospero'', ''rtsp'', ''rtspu'',
     ''rsync'', ''svn'', ''svn+ssh'', ''sftp'', ''nfs'', ''git'', ''git+ssh'', ''ws'', ''wss'']"

definition uses_params :: "string list" where
  "uses_params = [[], ''ftp'', ''hdl'', ''prospero'', ''http'', ''imap'', ''https'', ''shttp'',
     ''rtsp'', ''rtspu'', ''sip'', ''sips'', ''mms'', ''sftp'', ''tel'']"

definition py_splitparams :: "string \<Rightarrow> string \<times> string" where
  "py_splitparams url =
     (if CHR ''/'' \<in> set url then
        (case rsplit1 CHR ''/'' url of (before, seg) \<Rightarrow>
           if CHR '';'' \<in> set seg then
             (case split1 CHR '';'' seg of (a, b) \<Rightarrow> (before @ ''/'' @ a, b))
           else (url, []))
      else split1 CHR '';'' url)"

definition py_urlparse :: "string \<Rightarrow> parse_result option" where
  "py_urlparse url0 =
     (let url1 = filter (\<lambda>c. c \<notin> {CHR 0x09, CHR 0x0A, CHR 0x0D})
                   (dropWhile (\<lambda>c. (of_char c :: nat) \<le> 32) url0);
          pre = takeWhile (\<lambda>c. c \<noteq> CHR '':'') url1;
          has_scheme = (CHR '':'' \<in> set url1 \<and> pre \<noteq> [] \<and> is_ascii_alpha (hd url1)
                          \<and> list_all is_scheme_char pre);
          scheme = (if has_scheme then lower pre else []);
          url2 = (if has_scheme then drop (length pre + 1) url1 else url1);
          has_netloc = (take 2 url2 = ''//'');
          netloc = (if has_netloc then takeWhile (\<lambda>c. c \<notin> set ''/?#'') (drop 2 url2) else []);
          url3 = (if has_netloc then dropWhile (\<lambda>c. c \<notin> set ''/?#'') (drop 2 url2) else url2);
          fragment = (if CHR ''#'' \<in> set url3 then snd (split1 CHR ''#'' url3) else []);
          url4 = (if CHR ''#'' \<in> set url3 then fst (split1 CHR ''#'' url3) else url3);
          query = (if CHR ''?'' \<in> set url4 then snd (split1 CHR ''?'' url4) else []);
          url5 = (if CHR ''?'' \<in> set url4 then fst (split1 CHR ''?'' url4) else url4);
          split_params = (scheme \<in> set uses_params \<and> CHR '';'' \<in> set url5)
      in if has_netloc \<and> ((CHR ''['' \<in> set netloc) \<noteq> (CHR '']'' \<in> set netloc)) then None
         else Some \<lparr>pr_scheme = scheme, pr_netloc = netloc,
                pr_path = (if split_params then fst (py_splitparams url5) else url5),
                pr_params = (if split_params then snd (py_splitparams url5) else []),
                pr_query = query, pr_fragment = fragment\<rparr>)"

definition py_urlunparse :: "parse_result \<Rightarrow> string" where
  "py_urlunparse p =
     (let url0 = (if pr_params p \<noteq> [] then pr_path p @ '';'' @ pr_params p else pr_path p);
          url1 = (if pr_netloc p \<noteq> [] \<or> (pr_scheme p \<noteq> [] \<and> pr_scheme p \<in> set uses_netloc \<and> take 2 url0 \<noteq> ''//'')
                  then ''//'' @ pr_netloc p @ (if url0 \<noteq> [] \<and> take 1 url0 \<noteq> ''/'' then ''/'' @ url0 else url0)
                  else url0);
          url2 = (if pr_scheme p \<noteq> [] then pr_scheme p @ '':'' @ url1 else url1);
          url3 = (if pr_query p \<noteq> [] then url2 @ ''?'' @ pr_query p else url2)
      in if pr_fragment p \<noteq> [] then url3 @ ''#'' @ pr_fragment p else url3)"

fun split_on :: "char \<Rightarrow> string \<Rightarrow> string list" where
  "split_on c [] = [[]]"
| "split_on c (x # xs) =
     (if x = c then [] # split_on c xs
      else (case split_on c xs of [] \<Rightarrow> [[x]] | w # ws \<Rightarrow> (x # w) # ws))"

definition hex_val :: "char \<Rightarrow> nat option" where
  "hex_val c =
     (let n = (of_char c :: nat)
      in if 48 \<le> n \<and> n \<le> 57 then Some (n - 48)
         else if 65 \<le> n \<and> n \<le> 70 then Some (n - 55)
         else if 97 \<le> n \<and> n \<le> 102 then Some (n - 87)
         else None)"

fun py_unquote :: "string \<Rightarrow> string" where
  "py_unquote (p # a # b # rest) =
     (if p = CHR ''%'' then
        (case (hex_val a, hex_val b) of
           (Some h, Some l) \<Rightarrow>
             if 16 * h + l < 128 then char_of (16 * h + l) # py_unquote rest
             else p # py_unquote (a # b # rest)
         | _ \<Rightarrow> p # py_unquote (a # b # rest))
      else p # py_unquote (a # b # rest))"
| "py_unquote s = s"

definition plus_to_space :: "string \<Rightarrow> string" where
  "plus_to_space s = map (\<lambda>c. if c = CHR ''+'' then CHR '' '' else c) s"

definition py_parse_qsl :: "string \<Rightarrow> (string \<times> string) list" where
  "py_parse_qsl qs =
     (if qs = [] then []
      else map (\<lambda>name_value.
                 (py_unquote (plus_to_space (fst (split1 CHR ''='' name_value))),
                  py_unquote (plus_to_space (snd (split1 CHR ''='' name_value)))))
             (filter (\<lambda>name_value. name_value \<noteq> []) (split_on CHR ''&'' qs)))"

definition hex_digit :: "nat \<Rightarrow> char" where
  "hex_digit n = (if n < 10 then char_of (48 + n) else char_of (55 + n))"

definition percent :: "nat \<Rightarrow> string" where
  "percent b = [CHR ''%'', hex_digit (b div 16), hex_digit (b mod 16)]"

definition quote_plus_char :: "char \<Rightarrow> string" where
  "quote_plus_char c =
     (let n = (of_char c :: nat)
      in if is_ascii_alpha c \<or> is_digit c \<or> c \<in> set ''_.-~'' then [c]
         else if c = CHR '' '' then ''+''
         else if n < 128 then percent n
         else percent (192 + n div 64) @ percent (128 + n mod 64))"

definition py_quote_plus :: "string \<Rightarrow> string" where
  "py_quote_plus s = concat (map quote_plus_char s)"

fun join_with :: "string \<Rightarrow> string list \<Rightarrow> string" where
  "join_with sep [] = []"
| "join_with sep [x] = x"
| "join_with sep (x # y # ys) = x @ sep @ join_with sep (y # ys)"

definition py_urlencode :: "(string \<times> string) list \<Rightarrow> string" where
  "py_urlencode ps = join_with ''&'' (map (\<lambda>(k, v). py_quote_plus k @ ''='' @ py_quote_plus v) ps)"

definition py_urllib :: urllib where
  "py_urllib = \<lparr>urlparse = py_urlparse, parse_qsl = py_parse_qsl,
                 urlencode = py_urlencode, urlunparse = py_urlunparse\<rparr>"


section \<open>Tab records\<close>

text \<open>
  A tab is a Python dict. The fields below are the keys the graph core reads or writes.
  A key read with \<^verbatim>\<open>.get\<close> and then only tested for truth is modelled by its falsy value
  when it is missing: the empty string for \<^verbatim>\<open>url\<close>, \<^verbatim>\<open>canonical_url\<close> and
  \<^verbatim>\<open>domain\<close> (which \<^verbatim>\<open>load_tabs\<close> always sets to strings), the empty list for
  \<^verbatim>\<open>keywords\<close> and \<^verbatim>\<open>aliases\<close>, \<open>None\<close> for \<^verbatim>\<open>simhash\<close>,
  \<^verbatim>\<open>embedding\<close> and \<^verbatim>\<open>duplicate_of\<close>.
\<close>

record tab =
  tab_id :: nat
  tab_url :: string
  tab_canonical_url :: string
  tab_domain :: string
  tab_simhash :: "int option"
  tab_keywords :: "string list"
  tab_embedding :: "real list option"
  tab_aliases :: "string list"
  tab_duplicate_of :: "nat option"
  tab_group_id :: int

section \<open>Union-find on a parent list\<close>

text \<open>
  \<^verbatim>\<open>find\<close> and \<^verbatim>\<open>union\<close> are closures over the list \<^verbatim>\<open>parent\<close> in both
  \<^verbatim>\<open>dedupe_tabs\<close> and \<^verbatim>\<open>build_groups\<close>; here the list is passed and returned.
  \<^verbatim>\<open>find\<close> is a while loop: \<open>None\<close> stands for a run that does not return a root,
  because an index is out of range (Python raises IndexError) or because the loop never ends.
\<close>

partial_function (option) find_uf :: "nat list \<Rightarrow> nat \<Rightarrow> (nat list \<times> nat) option" where
  "find_uf parent x =
     (if x < length parent then
        if parent ! x \<noteq> x then
          if parent ! x < length parent then
            let parent' = parent[x := parent ! (parent ! x)]
            in find_uf parent' (parent' ! x)
          else None
        else Some (parent, x)
      else None)"

declare find_uf.simps [code]

definition union_uf :: "nat list \<Rightarrow> nat \<Rightarrow> nat \<Rightarrow> nat list option" where
  "union_uf parent a b =
     (case find_uf parent a of
        None \<Rightarrow> None
      | Some (parent1, ra) \<Rightarrow>
          (case find_uf parent1 b of
             None \<Rightarrow> None
           | Some (parent2, rb) \<Rightarrow> Some (if ra \<noteq> rb then parent2[rb := ra] else parent2)))"

text \<open>A for loop whose body may raise: the first failure ends the loop.\<close>

fun for_loop :: "('a \<Rightarrow> 's \<Rightarrow> 's option) \<Rightarrow> 'a list \<Rightarrow> 's \<Rightarrow> 's option" where
  "for_loop body [] s = Some s"
| "for_loop body (x # xs) s = (case body x s of None \<Rightarrow> None | Some s' \<Rightarrow> for_loop body xs s')"

text \<open>
  \<^verbatim>\<open>d.setdefault(key, []).append(idx)\<close> on a dict that is iterated later: an association
  list in insertion order.
\<close>

fun setdefault_append :: "('k \<times> 'v list) list \<Rightarrow> 'k \<Rightarrow> 'v \<Rightarrow> ('k \<times> 'v list) list" where
  "setdefault_append [] key v = [(key, [v])]"
| "setdefault_append ((k, vs) # d) key v =
     (if k = key then (k, vs @ [v]) # d else (k, vs) # setdefault_append d key v)"

text \<open>The loop that collects each index under its root, shared by both functions.\<close>

definition collect_groups :: "nat \<Rightarrow> nat list \<Rightarrow> (nat list \<times> (nat \<times> nat list) list) option" where
  "collect_groups n parent =
     for_loop (\<lambda>idx (parent, groups).
        case find_uf parent idx of
          None \<Rightarrow> None
        | Some (parent', root') \<Rightarrow> Some (parent', setdefault_append groups root' idx))
       [0..<n] (parent, [])"

section \<open>Near-duplicate resolver\<close>

fun popcount :: "nat \<Rightarrow> nat" where
  "popcount n = (if n = 0 then 0 else n mod 2 + popcount (n div 2))"

text \<open>\<^verbatim>\<open>int.bit_count\<close> counts the ones of the absolute value.\<close>

definition hamming_distance :: "int \<Rightarrow> int \<Rightarrow> nat" where
  "hamming_distance a b = popcount (nat \<bar>a XOR b\<bar>)"

definition canonical_step ::
  "urllib \<Rightarrow> nat \<Rightarrow> tab list \<times> nat list \<times> (string \<rightharpoonup> nat)
     \<Rightarrow> (tab list \<times> nat list \<times> (string \<rightharpoonup> nat)) option" where
  "canonical_step L idx = (\<lambda>(tabs, parent, canonical_map).
     let tab = tabs ! idx;
         canonical = (if tab_canonical_url tab \<noteq> [] then tab_canonical_url tab
                      else canonicalize_url L (tab_url tab))
     in if canonical = [] then Some (tabs, parent, canonical_map)
        else
          let tabs' = tabs[idx := tab\<lparr>tab_canonical_url := canonical\<rparr>]
          in case canonical_map canonical of
               Some first \<Rightarrow>
                 (case union_uf parent idx first of
                    None \<Rightarrow> None
                  | Some parent' \<Rightarrow> Some (tabs', parent', canonical_map))
             | None \<Rightarrow> Some (tabs', parent, canonical_map(canonical \<mapsto> idx)))"

definition simhash_step :: "tab list \<Rightarrow> int \<Rightarrow> nat \<Rightarrow> nat list \<Rightarrow> nat list option" where
  "simhash_step tabs hamming_threshold i parent =
     (case tab_simhash (tabs ! i) of
        None \<Rightarrow> Some parent
      | Some sim_a \<Rightarrow>
          for_loop (\<lambda>j parent.
             case tab_simhash (tabs ! j) of
               None \<Rightarrow> Some parent
             | Some sim_b \<Rightarrow>
                 if tab_domain (tabs ! i) \<noteq> [] \<and> tab_domain (tabs ! i) = tab_domain (tabs ! j) then
                   if int (hamming_distance sim_a sim_b) \<le> hamming_threshold
                   then union_uf parent i j else Some parent
                 else Some parent)
            [i + 1..<length tabs] parent)"

definition py_min :: "nat list \<Rightarrow> nat option" where
  "py_min xs = (case xs of [] \<Rightarrow> None | x # rest \<Rightarrow> Some (fold min rest x))"

definition mark_duplicate :: "nat \<Rightarrow> nat \<Rightarrow> tab list \<Rightarrow> tab list" where
  "mark_duplicate primary idx tabs =
     (if idx \<noteq> primary then
        let tabs' = tabs[idx := (tabs ! idx)\<lparr>tab_duplicate_of := Some primary\<rparr>]
        in if tab_canonical_url (tabs' ! idx) = []
           then tabs'[idx := (tabs' ! idx)\<lparr>tab_canonical_url := tab_canonical_url (tabs' ! primary)\<rparr>]
           else tabs'
      else tabs)"

definition resolve_group ::
  "nat list \<Rightarrow> tab list \<times> (nat \<rightharpoonup> nat) \<times> nat \<Rightarrow> (tab list \<times> (nat \<rightharpoonup> nat) \<times> nat) option" where
  "resolve_group indices = (\<lambda>(tabs, primary_map, duplicates).
     case py_min indices of
       None \<Rightarrow> None
     | Some primary \<Rightarrow>
         let (duplicates', primary_map', aliases) =
               fold (\<lambda>idx (duplicates, primary_map, aliases).
                       if idx \<noteq> primary
                       then (duplicates + 1, primary_map(idx \<mapsto> primary), aliases @ [tab_url (tabs ! idx)])
                       else (duplicates, primary_map(idx \<mapsto> primary), aliases))
                 indices (duplicates, primary_map, [])
         in if aliases \<noteq> [] then
              let existing = tab_aliases (tabs ! primary) @ filter (\<lambda>url. url \<noteq> []) aliases;
                  tabs' = tabs[primary := (tabs ! primary)\<lparr>tab_aliases := sort (remdups existing)\<rparr>]
              in Some (fold (mark_duplicate primary) indices tabs', primary_map', duplicates')
            else Some (tabs, primary_map', duplicates'))"

definition dedupe_tabs ::
  "urllib \<Rightarrow> tab list \<Rightarrow> int \<Rightarrow> (tab list \<times> (nat \<rightharpoonup> nat) \<times> nat) option" where
  "dedupe_tabs L tabs hamming_threshold =
     (case for_loop (canonical_step L) [0..<length tabs] (tabs, [0..<length tabs], Map.empty) of
        None \<Rightarrow> None
      | Some (tabs1, parent1, canonical_map) \<Rightarrow>
          (case for_loop (simhash_step tabs1 hamming_threshold) [0..<length tabs1] parent1 of
             None \<Rightarrow> None
           | Some parent2 \<Rightarrow>
               (case collect_groups (length tabs1) parent2 of
                  None \<Rightarrow> None
                | Some (parent3, groups) \<Rightarrow>
                    for_loop resolve_group (map snd groups) (tabs1, Map.empty, 0))))"

section \<open>Fingerprinter\<close>

text \<open>
  \<^verbatim>\<open>simhash_from_tokens\<close>. The digest
  \<^verbatim>\<open>int.from_bytes(hashlib.md5(token.encode("utf-8")).digest()[:8], "big")\<close> comes from
  the standard library; it is the parameter \<open>md5_64\<close>, a 64-bit value for every token.
  The vote vector is a list of Python integers, updated in place slot by slot.
\<close>

definition vote :: "64 word \<Rightarrow> int list \<Rightarrow> int list" where
  "vote h vector =
     fold (\<lambda>i v. if drop_bit i h AND 1 \<noteq> 0 then v[i := v ! i + 1] else v[i := v ! i - 1])
       [0..<64] vector"

definition simhash_from_tokens :: "(string \<Rightarrow> 64 word) \<Rightarrow> string list \<Rightarrow> int option" where
  "simhash_from_tokens md5_64 tokens =
     (if tokens = [] then None
      else
        let vector = fold (\<lambda>token v. vote (md5_64 token) v) tokens (replicate 64 0)
        in Some (fold (\<lambda>(i, score) value. if score > 0 then value OR push_bit i 1 else value)
                   (enumerate 0 vector) 0))"

section \<open>Similarity scorer\<close>

text \<open>Python floats are modelled by the real numbers they stand for.\<close>

definition cosine_similarity :: "real list option \<Rightarrow> real list option \<Rightarrow> real" where
  "cosine_similarity a b =
     (case (a, b) of
        (Some xs, Some ys) \<Rightarrow>
          if xs = [] \<or> ys = [] then 0
          else if length xs \<noteq> length ys then 0
          else
            let dot = sum_list (map (\<lambda>(x, y). x * y) (zip xs ys));
                norm_a = sqrt (sum_list (map (\<lambda>x. x * x) xs));
                norm_b = sqrt (sum_list (map (\<lambda>y. y * y) ys))
            in if norm_a = 0 \<or> norm_b = 0 then 0 else dot / (norm_a * norm_b)
      | _ \<Rightarrow> 0)"

definition jaccard :: "string list \<Rightarrow> string list \<Rightarrow> real" where
  "jaccard a b =
     (let set_a = set a; set_b = set b
      in if set_a = {} \<or> set_b = {} then 0
         else real (card (set_a \<inter> set_b)) / real (card (set_a \<union> set_b)))"

definition similarity_score :: "tab \<Rightarrow> tab \<Rightarrow> real \<Rightarrow> real" where
  "similarity_score ta tb domain_bonus =
     (let similarity = cosine_similarity (tab_embedding ta) (tab_embedding tb);
          similarity = (if similarity = 0 then jaccard (tab_keywords ta) (tab_keywords tb)
                        else similarity)
      in if tab_domain ta \<noteq> [] \<and> tab_domain ta = tab_domain tb
         then similarity + domain_bonus else similarity)"

definition build_similarity_matrix :: "tab list \<Rightarrow> real \<Rightarrow> real list list" where
  "build_similarity_matrix tabs domain_bonus =
     (let count = length tabs
      in fold (\<lambda>i matrix.
           fold (\<lambda>j matrix.
              let score = similarity_score (tabs ! i) (tabs ! j) domain_bonus;
                  matrix = matrix[i := (matrix ! i)[j := score]]
              in matrix[j := (matrix ! j)[i := score]])
             [i + 1..<count] matrix)
          [0..<count] (replicate count (replicate count 0)))"

text \<open>\<^verbatim>\<open>similarity_matrix[i][j]\<close>: \<open>None\<close> where Python raises IndexError.\<close>

definition cell :: "real list list \<Rightarrow> nat \<Rightarrow> nat \<Rightarrow> real option" where
  "cell matrix i j =
     (if i < length matrix \<and> j < length (matrix ! i) then Some (matrix ! i ! j) else None)"

section \<open>Edges\<close>

record edge =
  edge_source :: nat
  edge_target :: nat
  edge_weight :: real
  edge_reason :: string

text \<open>\<^verbatim>\<open>round(weight, 3)\<close>: to three decimals, a tie going to the even neighbour.\<close>

definition round3 :: "real \<Rightarrow> real" where
  "round3 w =
     (let y = w * 1000; f = \<lfloor>y\<rfloor>; d = y - of_int f
      in of_int (if d < 1 / 2 then f else if 1 / 2 < d then f + 1
                 else if even f then f else f + 1) / 1000)"

definition build_edges :: "tab list \<Rightarrow> real list list \<Rightarrow> real \<Rightarrow> edge list option" where
  "build_edges tabs similarity_matrix threshold =
     for_loop (\<lambda>i edges.
        for_loop (\<lambda>j edges.
           case cell similarity_matrix i j of
             None \<Rightarrow> None
           | Some weight \<Rightarrow>
               if weight \<ge> threshold then
                 Some (edges @
                   [\<lparr>edge_source = tab_id (tabs ! i), edge_target = tab_id (tabs ! j),
                     edge_weight = round3 weight,
                     edge_reason = (if tab_domain (tabs ! i) = tab_domain (tabs ! j)
                                    then ''similarity+domain'' else ''similarity'')\<rparr>])
               else Some edges)
          [i + 1..<length tabs] edges)
       [0..<length tabs] []"

section \<open>Cluster builder\<close>

record group =
  group_gid :: nat
  group_tab_ids :: "nat list"
  group_size :: nat

definition domain_map_of :: "tab list \<Rightarrow> (string \<times> nat list) list" where
  "domain_map_of tabs =
     fold (\<lambda>(idx, tab) domain_map.
             if tab_domain tab \<noteq> [] then setdefault_append domain_map (tab_domain tab) idx
             else domain_map)
       (enumerate 0 tabs) []"

definition domain_step :: "int \<Rightarrow> nat list \<Rightarrow> nat list \<Rightarrow> nat list option" where
  "domain_step domain_group_min indices parent =
     (if int (length indices) \<ge> max 2 domain_group_min then
        (case indices of
           [] \<Rightarrow> None
         | root' # rest \<Rightarrow> for_loop (\<lambda>idx parent. union_uf parent root' idx) rest parent)
      else Some parent)"

text \<open>
  The neighbour set of tab \<open>i\<close>. \<^verbatim>\<open>scored.sort(key=..., reverse=True)\<close> is a stable
  sort in descending order: equal scores keep their order.
\<close>

definition neighbor_set :: "real list list \<Rightarrow> real \<Rightarrow> int \<Rightarrow> nat \<Rightarrow> nat \<Rightarrow> nat set option" where
  "neighbor_set similarity_matrix threshold knn_k n i =
     (case those (map (\<lambda>j. map_option (Pair j) (cell similarity_matrix i j))
                   (filter (\<lambda>j. j \<noteq> i) [0..<n])) of
        None \<Rightarrow> None
      | Some scored \<Rightarrow>
          let scored = rev (sort_key snd (rev scored));
              filtered = map fst (filter (\<lambda>(j, score). score \<ge> threshold) scored);
              filtered = (if knn_k > 0 then take (nat knn_k) filtered else filtered)
          in Some (set filtered))"

definition knn_step :: "(nat set \<Rightarrow> nat list) \<Rightarrow> nat set list \<Rightarrow> nat \<Rightarrow> nat list \<Rightarrow> nat list option" where
  "knn_step iter neighbors i parent =
     for_loop (\<lambda>j parent. if i \<in> neighbors ! j then union_uf parent i j else Some parent)
       (iter (neighbors ! i)) parent"

definition threshold_step :: "real list list \<Rightarrow> real \<Rightarrow> nat \<Rightarrow> nat \<Rightarrow> nat list \<Rightarrow> nat list option" where
  "threshold_step similarity_matrix threshold n i parent =
     for_loop (\<lambda>j parent.
        case cell similarity_matrix i j of
          None \<Rightarrow> None
        | Some score \<Rightarrow> if score \<ge> threshold then union_uf parent i j else Some parent)
       [i + 1..<n] parent"

text \<open>
  \<^verbatim>\<open>build_groups\<close>, in three parts: the unions of the enabled strategies, the
  dict from roots to indices, and the groups with the map from tab ids to group ids.
  Python does not fix the order in which \<^verbatim>\<open>for j in neighbors[i]\<close> visits a set; the
  order is the parameter \<open>iter\<close>.
\<close>

definition union_phase ::
  "(nat set \<Rightarrow> nat list) \<Rightarrow> tab list \<Rightarrow> real list list \<Rightarrow> real \<Rightarrow> bool \<Rightarrow> int \<Rightarrow> bool \<Rightarrow> int
     \<Rightarrow> nat list option" where
  "union_phase iter tabs similarity_matrix threshold domain_group domain_group_min mutual_knn knn_k =
     (let n = length tabs in
      case (if domain_group
            then for_loop (domain_step domain_group_min) (map snd (domain_map_of tabs)) [0..<n]
            else Some [0..<n]) of
        None \<Rightarrow> None
      | Some parent \<Rightarrow>
          if mutual_knn then
            (case those (map (neighbor_set similarity_matrix threshold knn_k n) [0..<n]) of
               None \<Rightarrow> None
             | Some neighbors \<Rightarrow> for_loop (knn_step iter neighbors) [0..<n] parent)
          else for_loop (threshold_step similarity_matrix threshold n) [0..<n] parent)"

definition emit_groups :: "tab list \<Rightarrow> (nat \<times> nat list) list \<Rightarrow> group list \<times> (nat \<rightharpoonup> nat)" where
  "emit_groups tabs groups_map =
     (let groups =
            map (\<lambda>(gid, (root', indices)).
                   \<lparr>group_gid = gid,
                    group_tab_ids = map (\<lambda>i. tab_id (tabs ! i)) indices,
                    group_size = length indices\<rparr>)
              (enumerate 0 groups_map);
          tab_to_group =
            fold (\<lambda>g tab_to_group.
                    fold (\<lambda>tid tab_to_group. tab_to_group(tid \<mapsto> group_gid g))
                      (group_tab_ids g) tab_to_group)
              groups Map.empty
      in (groups, tab_to_group))"

definition build_groups ::
  "(nat set \<Rightarrow> nat list) \<Rightarrow> tab list \<Rightarrow> real list list \<Rightarrow> real \<Rightarrow> bool \<Rightarrow> int \<Rightarrow> bool \<Rightarrow> int
     \<Rightarrow> (group list \<times> (nat \<rightharpoonup> nat)) option" where
  "build_groups iter tabs similarity_matrix threshold domain_group domain_group_min mutual_knn knn_k =
     (case union_phase iter tabs similarity_matrix threshold domain_group domain_group_min
             mutual_knn knn_k of
        None \<Rightarrow> None
      | Some parent \<Rightarrow>
          (case collect_groups (length tabs) parent of
             None \<Rightarrow> None
           | Some (parent', groups_map) \<Rightarrow> Some (emit_groups tabs groups_map)))"

section \<open>Graph assembler\<close>

text \<open>
  The part of \<^verbatim>\<open>main\<close> after enrichment, from \<^verbatim>\<open>dedupe_tabs\<close> to the statistics
  block. Group labels, which \<^verbatim>\<open>label_group\<close> computes from floating-point TF-IDF scores,
  and the fields that only report on the enrichment stage are left out.
\<close>

record config =
  arg_dedupe_hamming :: int
  arg_domain_bonus :: real
  arg_edge_threshold :: real
  arg_group_threshold :: real
  arg_no_domain_group :: bool
  arg_domain_group_min :: int
  arg_no_mutual_knn :: bool
  arg_knn_k :: int

record graph =
  graph_tabs :: "tab list"
  graph_groups :: "group list"
  graph_edges :: "edge list"
  stats_tab_count :: nat
  stats_group_count :: nat
  stats_edge_count :: nat
  stats_duplicates :: nat

definition assign_group :: "(nat \<rightharpoonup> nat) \<Rightarrow> (nat \<rightharpoonup> nat) \<Rightarrow> tab \<Rightarrow> tab" where
  "assign_group primary_map tab_to_group_primary tab =
     (let primary_id = (case primary_map (tab_id tab) of Some p \<Rightarrow> p | None \<Rightarrow> tab_id tab);
          group_id = (case tab_to_group_primary primary_id of Some g \<Rightarrow> int g | None \<Rightarrow> - 1)
      in tab\<lparr>tab_group_id := group_id\<rparr>)"

definition build_graph :: "(nat set \<Rightarrow> nat list) \<Rightarrow> urllib \<Rightarrow> config \<Rightarrow> tab list \<Rightarrow> graph option" where
  "build_graph iter L args tabs0 =
     (case dedupe_tabs L tabs0 (arg_dedupe_hamming args) of
        None \<Rightarrow> None
      | Some (tabs1, primary_map, duplicates) \<Rightarrow>
          let primary_tabs = filter (\<lambda>t. tab_duplicate_of t = None) tabs1;
              similarity_matrix = build_similarity_matrix primary_tabs (arg_domain_bonus args)
          in case build_edges primary_tabs similarity_matrix (arg_edge_threshold args) of
               None \<Rightarrow> None
             | Some edges \<Rightarrow>
                 (case build_groups iter primary_tabs similarity_matrix (arg_group_threshold args)
                         (\<not> arg_no_domain_group args) (arg_domain_group_min args)
                         (\<not> arg_no_mutual_knn args) (arg_knn_k args) of
                    None \<Rightarrow> None
                  | Some (groups_primary, tab_to_group_primary) \<Rightarrow>
                      let tabs = map (assign_group primary_map tab_to_group_primary) tabs1;
                          groups =
                            map (\<lambda>g.
                                   let tab_ids = map tab_id
                                         (filter (\<lambda>t. tab_group_id t = int (group_gid g)) tabs)
                                   in g\<lparr>group_tab_ids := tab_ids, group_size := length tab_ids\<rparr>)
                              groups_primary
                      in Some \<lparr>graph_tabs = tabs, graph_groups = groups, graph_edges = edges,
                               stats_tab_count = length tabs, stats_group_count = length groups,
                               stats_edge_count = length edges, stats_duplicates = duplicates\<rparr>))"

section \<open>Specification of the union-find lists\<close>

text \<open>
  \<open>rep l k i r\<close>: following the parent entries from \<open>i\<close> reaches the root \<open>r\<close> in
  at most \<open>k\<close> steps. A parent list is well formed when every index reaches a root;
  \<open>root_of\<close> is that root, and \<open>unions\<close> is a run of \<^verbatim>\<open>union\<close> calls.
\<close>

inductive rep :: "nat list \<Rightarrow> nat \<Rightarrow> nat \<Rightarrow> nat \<Rightarrow> bool" where
  rep_root: "i < length l \<Longrightarrow> l ! i = i \<Longrightarrow> rep l k i i"
| rep_step: "i < length l \<Longrightarrow> l ! i \<noteq> i \<Longrightarrow> rep l k (l ! i) r \<Longrightarrow> rep l (Suc k) i r"

definition uf_inv :: "nat list \<Rightarrow> bool" where
  "uf_inv l = (\<forall>i<length l. \<exists>k r. rep l k i r)"

definition root_of :: "nat list \<Rightarrow> nat \<Rightarrow> nat" where
  "root_of l i = (THE r. \<exists>k. rep l k i r)"

definition unions :: "(nat \<times> nat) list \<Rightarrow> nat list \<Rightarrow> nat list option" where
  "unions ps l = for_loop (\<lambda>(a, b) l. union_uf l a b) ps l"


text \<open>\<open>coarser l g\<close>: indices with the same root in \<open>l\<close> have the same value under \<open>g\<close>.\<close>

definition coarser :: "nat list \<Rightarrow> (nat \<Rightarrow> 'a) \<Rightarrow> bool" where
  "coarser l g = (\<forall>i<length l. \<forall>j<length l. root_of l i = root_of l j \<longrightarrow> g i = g j)"

text \<open>
  \<open>group_by key xs\<close>: what a loop of \<^verbatim>\<open>setdefault(key(x), []).append(x)\<close> over \<open>xs\<close>
  builds from the empty dict.
\<close>

definition group_by :: "('v \<Rightarrow> 'k) \<Rightarrow> 'v list \<Rightarrow> ('k \<times> 'v list) list" where
  "group_by key xs = fold (\<lambda>x d. setdefault_append d (key x) x) xs []"

text \<open>The pairs that the loops of \<^verbatim>\<open>build_groups\<close> hand to \<^verbatim>\<open>union\<close>, in order.\<close>

definition domain_pairs :: "int \<Rightarrow> nat list \<Rightarrow> (nat \<times> nat) list" where
  "domain_pairs domain_group_min indices =
     (if int (length indices) \<ge> max 2 domain_group_min then map (Pair (hd indices)) (tl indices)
      else [])"

definition threshold_pairs :: "real list list \<Rightarrow> real \<Rightarrow> nat \<Rightarrow> (nat \<times> nat) list" where
  "threshold_pairs m threshold n =
     concat (map (\<lambda>i. map (Pair i) (filter (\<lambda>j. m ! i ! j \<ge> threshold) [i + 1..<n])) [0..<n])"

definition knn_pairs :: "(nat set \<Rightarrow> nat list) \<Rightarrow> nat set list \<Rightarrow> nat \<Rightarrow> (nat \<times> nat) list" where
  "knn_pairs iter neighbors n =
     concat (map (\<lambda>i. map (Pair i) (filter (\<lambda>j. i \<in> neighbors ! j) (iter (neighbors ! i)))) [0..<n])"

text \<open>A similarity matrix with \<open>n\<close> rows of \<open>n\<close> entries.\<close>

definition square :: "nat \<Rightarrow> real list list \<Rightarrow> bool" where
  "square n m = (length m = n \<and> list_all (\<lambda>row. length row = n) m)"

text \<open>An iteration order for sets of tab indices: it visits the members of the set.\<close>

definition visits :: "(nat set \<Rightarrow> nat list) \<Rightarrow> bool" where
  "visits iter = (\<forall>xs. set (iter (set xs)) = set xs)"

section \<open>Example inputs\<close>

definition example_tab :: "nat \<Rightarrow> string \<Rightarrow> string \<Rightarrow> string list \<Rightarrow> tab" where
  "example_tab i u d kw =
     \<lparr>tab_id = i, tab_url = u, tab_canonical_url = [], tab_domain = d, tab_simhash = None,
      tab_keywords = kw, tab_embedding = None, tab_aliases = [], tab_duplicate_of = None,
      tab_group_id = - 1\<rparr>"

text \<open>Three tabs on one domain whose similarity matrix is zero everywhere.\<close>

definition same_domain_tabs :: "tab list" where
  "same_domain_tabs =
     [example_tab 0 ''https://a.com/rust'' ''a.com'' [''rust''],
      example_tab 1 ''https://a.com/pasta'' ''a.com'' [''pasta''],
      example_tab 2 ''https://a.com/chess'' ''a.com'' [''chess'']]"

definition zero_matrix :: "real list list" where
  "zero_matrix = [[0, 0, 0], [0, 0, 0], [0, 0, 0]]"

text \<open>
  Three tabs on three domains: tab 0 is close to tab 1 and, less so, to tab 2; tabs 1 and
  2 are far apart.
\<close>

definition chain_tabs :: "tab list" where
  "chain_tabs =
     [example_tab 0 ''https://a.com/x'' ''a.com'' [],
      example_tab 1 ''https://b.com/y'' ''b.com'' [],
      example_tab 2 ''https://c.com/z'' ''c.com'' []]"

definition chain_matrix :: "real list list" where
  "chain_matrix = [[0, 9 / 10, 3 / 10], [9 / 10, 0, 1 / 10], [3 / 10, 1 / 10, 0]]"

section \<open>Properties of the fingerprinter\<close>

lemma fold_slots_length:
  "length (fold (\<lambda>i v. v[i := g i (v ! i)]) [0..<n] v) = length v"
  by (induction n) simp_all

lemma fold_slots_nth:
  "j < length v \<Longrightarrow>
     fold (\<lambda>i v. v[i := g i (v ! i)]) [0..<n] v ! j = (if j < n then g j (v ! j) else v ! j)"
proof (induction n)
  case 0
  then show ?case by simp
next
  case (Suc n)
  then show ?case
    by (cases "j = n") (simp_all add: fold_slots_length nth_list_update)
qed

lemma vote_slots:
  "vote h v = fold (\<lambda>i v. v[i := (if bit h i then v ! i + 1 else v ! i - 1)]) [0..<64] v"
proof -
  have "(drop_bit i h AND 1 \<noteq> 0) = bit h i" for i
    by (simp add: bit_iff_odd_drop_bit and_one_eq mod_2_eq_odd)
  then show ?thesis
    unfolding vote_def by (simp add: if_distrib [of "\<lambda>x. list_update _ _ x"] cong: if_cong)
qed

lemma length_vote: "length (vote h v) = length v"
  unfolding vote_slots
  using fold_slots_length [of "\<lambda>i x. if bit h i then x + 1 else x - 1" 64 v] by simp

lemma vote_nth:
  "j < length v \<Longrightarrow>
     vote h v ! j = (if j < 64 then (if bit h j then v ! j + 1 else v ! j - 1) else v ! j)"
  unfolding vote_slots
  using fold_slots_nth [of j v "\<lambda>i x. if bit h i then x + 1 else x - 1" 64] by simp

lemma vote_commute: "vote h (vote h' v) = vote h' (vote h v)"
  by (rule nth_equalityI) (simp_all add: length_vote vote_nth)

text \<open>
  C6. The fingerprint depends only on the multiset of tokens: two token lists that are
  permutations of each other get the same value from \<open>simhash_from_tokens\<close>, whatever the
  digest function is.
\<close>

theorem simhash_order_independent:
  assumes "mset tokens = mset tokens'"
  shows "simhash_from_tokens md5_64 tokens = simhash_from_tokens md5_64 tokens'"
proof -
  have comm: "(\<lambda>v. vote (md5_64 x) v) \<circ> (\<lambda>v. vote (md5_64 y) v)
      = (\<lambda>v. vote (md5_64 y) v) \<circ> (\<lambda>v. vote (md5_64 x) v)" for x y
    by (rule ext) (simp add: vote_commute)
  have "fold (\<lambda>token v. vote (md5_64 token) v) tokens
      = fold (\<lambda>token v. vote (md5_64 token) v) tokens'"
    by (rule fold_multiset_equiv) (use comm assms in auto)
  moreover have "tokens = [] \<longleftrightarrow> tokens' = []"
    using assms by (metis mset_zero_iff)
  ultimately show ?thesis
    by (simp add: simhash_from_tokens_def)
qed

theorem simhash_order_independent_witness:
  "mset [''rust'', ''borrow'', ''checker''] = mset [''checker'', ''rust'', ''borrow'']
   \<and> simhash_from_tokens (\<lambda>s. of_nat (length s)) [''rust'', ''borrow'', ''checker'']
     = simhash_from_tokens (\<lambda>s. of_nat (length s)) [''checker'', ''rust'', ''borrow'']"
  using simhash_order_independent
    [of "[''rust'', ''borrow'', ''checker'']" "[''checker'', ''rust'', ''borrow'']"
        "\<lambda>s. of_nat (length s)"]
  by simp


section \<open>Union-find: roots, find and union\<close>

lemma rep_bounds: "rep l k i r \<Longrightarrow> i < length l \<and> r < length l \<and> l ! r = r"
  by (induction rule: rep.induct) auto

lemma rep_mono: "rep l k i r \<Longrightarrow> k \<le> k' \<Longrightarrow> rep l k' i r"
proof (induction arbitrary: k' rule: rep.induct)
  case (rep_root i l k)
  then show ?case by (simp add: rep.rep_root)
next
  case (rep_step i l k r)
  then obtain k'' where "k' = Suc k''" "k \<le> k''" by (cases k') auto
  with rep_step show ?case by (auto intro: rep.rep_step)
qed

lemma rep_det: "rep l k i r \<Longrightarrow> rep l k' i r' \<Longrightarrow> r = r'"
proof (induction arbitrary: k' r' rule: rep.induct)
  case (rep_root i l k)
  from rep_root.prems show ?case
  proof (cases rule: rep.cases)
    case rep_root
    then show ?thesis by simp
  next
    case (rep_step k1)
    with rep_root.hyps show ?thesis by simp
  qed
next
  case (rep_step i l k r)
  from rep_step.prems show ?case
  proof (cases rule: rep.cases)
    case rep_root
    with rep_step.hyps show ?thesis by simp
  next
    case (rep_step k1)
    with rep_step.IH show ?thesis by blast
  qed
qed

lemma rep_no_2cycle: "rep l k i r \<Longrightarrow> l ! i \<noteq> i \<Longrightarrow> l ! (l ! i) \<noteq> i"
proof (induction rule: rep.induct)
  case (rep_root i l k)
  then show ?case by simp
next
  case (rep_step i l k r)
  show ?case
  proof
    assume c: "l ! (l ! i) = i"
    with rep_step.hyps have "l ! (l ! i) \<noteq> l ! i" by simp
    with rep_step.IH have "l ! (l ! (l ! i)) \<noteq> l ! i" by simp
    with c show False by simp
  qed
qed

lemma root_of_eq: "rep l k i r \<Longrightarrow> root_of l i = r"
  unfolding root_of_def by (rule the_equality) (auto dest: rep_det)

lemma uf_inv_rep: "uf_inv l \<Longrightarrow> i < length l \<Longrightarrow> \<exists>k. rep l k i (root_of l i)"
  unfolding uf_inv_def using root_of_eq by blast

lemma root_of_bound: "uf_inv l \<Longrightarrow> i < length l \<Longrightarrow> root_of l i < length l"
  using uf_inv_rep rep_bounds by blast

lemma root_of_root: "uf_inv l \<Longrightarrow> i < length l \<Longrightarrow> root_of l (root_of l i) = root_of l i"
  by (meson rep_bounds rep_root root_of_eq uf_inv_rep)

lemma uf_inv_init: "uf_inv [0..<n]"
proof -
  have "rep [0..<n] 0 i i" if "i < n" for i
    using that by (simp add: rep_root)
  then show ?thesis unfolding uf_inv_def by auto
qed

lemma root_of_init: "i < n \<Longrightarrow> root_of [0..<n] i = i"
  by (rule root_of_eq [of _ 0]) (simp add: rep_root)

text \<open>Path halving: the step of the loop in find keeps every root.\<close>

lemma halve_rep:
  assumes x: "rep l kx x rx" "l ! x \<noteq> x"
  shows "rep l k i r \<Longrightarrow> rep (l[x := l ! (l ! x)]) k i r"
proof (induction k arbitrary: i r rule: less_induct)
  case (less k)
  let ?l' = "l[x := l ! (l ! x)]"
  from x have xl: "x < length l" using rep_bounds by blast
  from less.prems show ?case
  proof (cases rule: rep.cases)
    case rep_root
    with x have "i \<noteq> x" by auto
    with rep_root show ?thesis by (auto intro: rep.rep_root)
  next
    case (rep_step k1)
    show ?thesis
    proof (cases "i = x")
      case False
      from rep_step less.IH [of k1 "l ! i" r] have "rep ?l' k1 (l ! i) r" by simp
      with False rep_step show ?thesis by (auto intro: rep.rep_step)
    next
      case True
      have ne: "l ! (l ! x) \<noteq> x" using rep_no_2cycle [OF x(1) x(2)] .
      from rep_step(4) have "rep ?l' k1 (l ! (l ! x)) r"
      proof (cases rule: rep.cases)
        case rep_root
        with rep_step True less.IH [of k1 "l ! i" r] show ?thesis by simp
      next
        case (rep_step k2)
        with \<open>k = Suc k1\<close> less.IH [of k2 "l ! (l ! i)" r] have "rep ?l' k2 (l ! (l ! i)) r" by simp
        with rep_step True show ?thesis using rep_mono [of ?l' k2 _ r k1] by simp
      qed
      with True rep_step xl ne show ?thesis by (auto intro: rep.rep_step)
    qed
  qed
qed

lemma find_uf_rep:
  "rep l k x r \<Longrightarrow>
     \<exists>l'. find_uf l x = Some (l', r) \<and> length l' = length l
        \<and> (\<forall>i k' r'. rep l k' i r' \<longrightarrow> rep l' k' i r')"
proof (induction k arbitrary: l x rule: less_induct)
  case (less k)
  from less.prems show ?case
  proof (cases rule: rep.cases)
    case rep_root
    then show ?thesis by (subst find_uf.simps) simp
  next
    case (rep_step k1)
    let ?l' = "l[x := l ! (l ! x)]"
    from rep_step have px: "l ! x < length l" using rep_bounds by blast
    have halve: "rep l k' i r' \<Longrightarrow> rep ?l' k' i r'" for k' i r'
      using halve_rep [OF less.prems rep_step(3)] .
    have "\<exists>k2. k2 < k \<and> rep ?l' k2 (l ! (l ! x)) r"
      using rep_step(4)
    proof (cases rule: rep.cases)
      case rep_root
      with rep_step \<open>k = Suc k1\<close> halve [of k1 "l ! x" r] show ?thesis
        by (intro exI [of _ k1]) simp
    next
      case (rep_step k2)
      with \<open>k = Suc k1\<close> halve [of k2 "l ! (l ! x)" r] show ?thesis
        by (intro exI [of _ k2]) simp
    qed
    then obtain k2 where k2: "k2 < k" "rep ?l' k2 (l ! (l ! x)) r" by blast
    from less.IH [OF k2] obtain l2 where l2: "find_uf ?l' (l ! (l ! x)) = Some (l2, r)"
      "length l2 = length ?l'" "\<forall>i k' r'. rep ?l' k' i r' \<longrightarrow> rep l2 k' i r'" by blast
    have "find_uf l x = find_uf ?l' (l ! (l ! x))"
      using rep_step px by (subst find_uf.simps) (simp add: Let_def)
    with l2 halve show ?thesis by auto
  qed
qed

lemma find_uf_spec:
  assumes "uf_inv l" "x < length l"
  shows "\<exists>l'. find_uf l x = Some (l', root_of l x) \<and> length l' = length l \<and> uf_inv l'
           \<and> (\<forall>i<length l. root_of l' i = root_of l i)"
proof -
  from uf_inv_rep [OF assms] obtain k where k: "rep l k x (root_of l x)" by blast
  from find_uf_rep [OF k] obtain l' where l': "find_uf l x = Some (l', root_of l x)"
    "length l' = length l" "\<And>i k' r'. rep l k' i r' \<Longrightarrow> rep l' k' i r'" by blast
  have "uf_inv l'"
    unfolding uf_inv_def using l'(2,3) assms(1) unfolding uf_inv_def by metis
  moreover have "root_of l' i = root_of l i" if "i < length l" for i
    using uf_inv_rep [OF assms(1) that] l'(3) root_of_eq by blast
  ultimately show ?thesis using l' by blast
qed


text \<open>Linking one root below another.\<close>

lemma link_rep:
  assumes "rep l k i r" "ra < length l" "l ! ra = ra" "rb < length l" "l ! rb = rb" "ra \<noteq> rb"
  shows "rep (l[rb := ra]) (Suc k) i (if r = rb then ra else r)"
  using assms
proof (induction rule: rep.induct)
  case (rep_root i l k)
  show ?case
  proof (cases "i = rb")
    case True
    have "rep (l[rb := ra]) k ra ra"
      using rep_root.prems by - (rule rep.rep_root, simp_all)
    then have "rep (l[rb := ra]) (Suc k) rb ra"
      using rep_root.prems by - (rule rep.rep_step, simp_all)
    with True show ?thesis by simp
  next
    case False
    with rep_root show ?thesis by (simp add: rep.rep_root)
  qed
next
  case (rep_step i l k r)
  then have "i \<noteq> rb" by auto
  with rep_step show ?case by - (rule rep.rep_step, simp_all)
qed

lemma union_uf_spec:
  assumes "uf_inv l" "a < length l" "b < length l"
  shows "\<exists>l'. union_uf l a b = Some l' \<and> length l' = length l \<and> uf_inv l'
           \<and> (\<forall>i<length l. root_of l' i
                 = (if root_of l i = root_of l b then root_of l a else root_of l i))"
proof -
  from find_uf_spec [OF assms(1,2)] obtain l1 where l1:
    "find_uf l a = Some (l1, root_of l a)" "length l1 = length l" "uf_inv l1"
    "\<And>i. i < length l \<Longrightarrow> root_of l1 i = root_of l i" by blast
  from find_uf_spec [of l1 b] l1 assms obtain l2 where l2:
    "find_uf l1 b = Some (l2, root_of l1 b)" "length l2 = length l1" "uf_inv l2"
    "\<And>i. i < length l \<Longrightarrow> root_of l2 i = root_of l1 i" by auto
  let ?ra = "root_of l a" and ?rb = "root_of l b"
  have rb: "root_of l1 b = ?rb" using l1(4) assms by simp
  have r2: "root_of l2 i = root_of l i" if "i < length l" for i
    using that l1(4) l2(4) by simp
  have u: "union_uf l a b = Some (if ?ra \<noteq> ?rb then l2[?rb := ?ra] else l2)"
    using l1(1) l2(1) rb by (simp add: union_uf_def)
  show ?thesis
  proof (cases "?ra = ?rb")
    case True
    with u l2 l1 r2 show ?thesis by auto
  next
    case False
    let ?l' = "l2[?rb := ?ra]"
    have len: "length l2 = length l" using l1 l2 by simp
    have ra: "?ra < length l2" "l2 ! ?ra = ?ra"
      using uf_inv_rep [OF l2(3), of a] r2 [of a] assms len rep_bounds by fastforce+
    have rb': "?rb < length l2" "l2 ! ?rb = ?rb"
      using uf_inv_rep [OF l2(3), of b] r2 [of b] assms len rep_bounds by fastforce+
    have step: "\<exists>k. rep ?l' k i (if root_of l i = ?rb then ?ra else root_of l i)"
      if "i < length l" for i
    proof -
      from uf_inv_rep [OF l2(3), of i] that len r2 [OF that]
      obtain k where "rep l2 k i (root_of l i)" by auto
      from link_rep [OF this ra rb' False] show ?thesis by blast
    qed
    have "uf_inv ?l'"
      unfolding uf_inv_def
    proof (intro allI impI)
      fix i assume "i < length ?l'"
      with len have "i < length l" by simp
      from step [OF this] show "\<exists>k r. rep ?l' k i r" by blast
    qed
    moreover have "root_of ?l' i = (if root_of l i = ?rb then ?ra else root_of l i)"
      if "i < length l" for i
      using step [OF that] root_of_eq by blast
    ultimately show ?thesis using u False len by auto
  qed
qed


section \<open>Loops and runs of unions\<close>


lemma for_loop_append:
  "for_loop body (xs @ ys) s
     = (case for_loop body xs s of None \<Rightarrow> None | Some s' \<Rightarrow> for_loop body ys s')"
  by (induction xs arbitrary: s) (auto split: option.splits)

lemma for_loop_cong:
  assumes "\<And>x s. x \<in> set xs \<Longrightarrow> f x s = g x s"
  shows "for_loop f xs s = for_loop g xs s"
  using assms by (induction xs arbitrary: s) (auto split: option.splits)

lemma for_loop_inv:
  assumes init: "I [] s"
    and step: "\<And>pre x post s. xs = pre @ x # post \<Longrightarrow> I pre s
                 \<Longrightarrow> \<exists>s'. body x s = Some s' \<and> I (pre @ [x]) s'"
  shows "\<exists>s'. for_loop body xs s = Some s' \<and> I xs s'"
proof -
  have "\<exists>s'. for_loop body rest s = Some s' \<and> I xs s'"
    if "I pre s" "xs = pre @ rest" for pre rest s
    using that
  proof (induction rest arbitrary: pre s)
    case Nil
    then show ?case by simp
  next
    case (Cons x rest)
    from step [OF Cons.prems(2) Cons.prems(1)] obtain s1 where
      s1: "body x s = Some s1" "I (pre @ [x]) s1" by blast
    from Cons.IH [OF s1(2)] Cons.prems(2) obtain s' where
      "for_loop body rest s1 = Some s'" "I xs s'" by auto
    with s1 show ?case by simp
  qed
  from this [OF init] show ?thesis by simp
qed

lemma union_uf_mono:
  assumes "uf_inv l" "a < length l" "b < length l" "union_uf l a b = Some l'"
    "i < length l" "j < length l" "root_of l i = root_of l j"
  shows "root_of l' i = root_of l' j"
  using union_uf_spec [OF assms(1-3)] assms(4-) by auto

lemma union_uf_joined:
  assumes "uf_inv l" "a < length l" "b < length l" "union_uf l a b = Some l'"
  shows "root_of l' a = root_of l' b"
  using union_uf_spec [OF assms(1-3)] assms(2-) by auto

lemma union_uf_coarser:
  assumes "uf_inv l" "a < length l" "b < length l" "union_uf l a b = Some l'"
    "coarser l g" "g a = g b"
  shows "coarser l' g"
proof -
  from union_uf_spec [OF assms(1-3)] assms(4) have len: "length l' = length l"
    and r: "\<And>i. i < length l \<Longrightarrow>
      root_of l' i = (if root_of l i = root_of l b then root_of l a else root_of l i)"
    by auto
  have c: "\<And>i j. i < length l \<Longrightarrow> j < length l \<Longrightarrow> root_of l i = root_of l j \<Longrightarrow> g i = g j"
    using assms(5) unfolding coarser_def by blast
  show ?thesis
    unfolding coarser_def len
  proof (intro allI impI)
    fix i j assume ij: "i < length l" "j < length l" "root_of l' i = root_of l' j"
    show "g i = g j"
    proof (cases "root_of l i = root_of l b")
      case True
      then have gi: "g i = g b" using c ij assms(3) by blast
      show ?thesis
      proof (cases "root_of l j = root_of l b")
        case True
        then have "g j = g b" using c ij assms(3) by blast
        with gi show ?thesis by simp
      next
        case False
        with True ij r have "root_of l a = root_of l j" by simp
        then have "g a = g j" using c ij assms(2) by blast
        with gi assms(6) show ?thesis by simp
      qed
    next
      case False
      show ?thesis
      proof (cases "root_of l j = root_of l b")
        case True
        then have gj: "g j = g b" using c ij assms(3) by blast
        from True False ij r have "root_of l i = root_of l a" by simp
        then have "g i = g a" using c ij assms(2) by blast
        with gj assms(6) show ?thesis by simp
      next
        case F2: False
        with False ij r have "root_of l i = root_of l j" by simp
        then show ?thesis using c ij by blast
      qed
    qed
  qed
qed

lemma unions_spec:
  assumes "uf_inv l" "\<forall>p\<in>set ps. fst p < length l \<and> snd p < length l"
  shows "\<exists>l'. unions ps l = Some l' \<and> length l' = length l \<and> uf_inv l'
           \<and> (\<forall>i<length l. \<forall>j<length l. root_of l i = root_of l j \<longrightarrow> root_of l' i = root_of l' j)
           \<and> (\<forall>p\<in>set ps. root_of l' (fst p) = root_of l' (snd p))"
  using assms
proof (induction ps arbitrary: l)
  case Nil
  then show ?case by (simp add: unions_def)
next
  case (Cons p ps)
  obtain a b where p: "p = (a, b)" by (cases p)
  with Cons.prems have ab: "a < length l" "b < length l" by auto
  from union_uf_spec [OF Cons.prems(1) ab] obtain l1 where l1:
    "union_uf l a b = Some l1" "length l1 = length l" "uf_inv l1" by blast
  have "\<forall>p\<in>set ps. fst p < length l1 \<and> snd p < length l1"
    using Cons.prems(2) l1(2) by simp
  from Cons.IH [OF l1(3) this] obtain l' where l':
    "unions ps l1 = Some l'" "length l' = length l1" "uf_inv l'"
    "\<forall>i<length l1. \<forall>j<length l1. root_of l1 i = root_of l1 j \<longrightarrow> root_of l' i = root_of l' j"
    "\<forall>p\<in>set ps. root_of l' (fst p) = root_of l' (snd p)"
    by blast
  have u: "unions (p # ps) l = Some l'"
    using l1(1) l'(1) p by (simp add: unions_def)
  have l4: "root_of l' i = root_of l' j"
    if "i < length l" "j < length l" "root_of l1 i = root_of l1 j" for i j
    using l'(4) that l1(2) by metis
  have mono: "root_of l' i = root_of l' j"
    if "i < length l" "j < length l" "root_of l i = root_of l j" for i j
    by (rule l4 [OF that(1,2) union_uf_mono [OF Cons.prems(1) ab l1(1) that]])
  have ab': "root_of l' a = root_of l' b"
    by (rule l4 [OF ab union_uf_joined [OF Cons.prems(1) ab l1(1)]])
  have len: "length l' = length l" using l' l1 by simp
  have all: "\<forall>q\<in>set (p # ps). root_of l' (fst q) = root_of l' (snd q)"
    using ab' l'(5) p by simp
  show ?case
    using u len l'(3) mono all by blast
qed

lemma unions_coarser:
  assumes "uf_inv l" "\<forall>p\<in>set ps. fst p < length l \<and> snd p < length l"
    "unions ps l = Some l'" "coarser l g" "\<forall>p\<in>set ps. g (fst p) = g (snd p)"
  shows "coarser l' g"
  using assms
proof (induction ps arbitrary: l)
  case Nil
  then show ?case by (simp add: unions_def)
next
  case (Cons p ps)
  obtain a b where p: "p = (a, b)" by (cases p)
  with Cons.prems have ab: "a < length l" "b < length l" by auto
  from union_uf_spec [OF Cons.prems(1) ab] obtain l1 where l1:
    "union_uf l a b = Some l1" "length l1 = length l" "uf_inv l1" by blast
  have c1: "coarser l1 g"
    using union_uf_coarser [OF Cons.prems(1) ab l1(1) Cons.prems(4)] Cons.prems(5) p by simp
  have u: "unions ps l1 = Some l'"
    using Cons.prems(3) l1(1) p by (simp add: unions_def)
  have b: "\<forall>p\<in>set ps. fst p < length l1 \<and> snd p < length l1"
    using Cons.prems(2) l1(2) by simp
  have g: "\<forall>p\<in>set ps. g (fst p) = g (snd p)"
    using Cons.prems(5) by simp
  show ?case
    using Cons.IH [OF l1(3) b u c1 g] .
qed

section \<open>Dicts of lists built by setdefault\<close>


lemma setdefault_append_keys:
  "map fst (setdefault_append d k v) = (if k \<in> fst ` set d then map fst d else map fst d @ [k])"
  by (induction d k v rule: setdefault_append.induct) auto

lemma setdefault_append_map_of:
  "map_of (setdefault_append d k v)
     = (map_of d)(k \<mapsto> (case map_of d k of None \<Rightarrow> [v] | Some vs \<Rightarrow> vs @ [v]))"
  by (induction d k v rule: setdefault_append.induct) (auto simp: fun_eq_iff)

lemma group_by_snoc:
  "group_by key (xs @ [x]) = setdefault_append (group_by key xs) (key x) x"
  by (simp add: group_by_def)

lemma group_by_keys_distinct: "distinct (map fst (group_by key xs))"
  by (induction xs rule: rev_induct) (simp_all add: group_by_def setdefault_append_keys)

lemma group_by_keys: "set (map fst (group_by key xs)) = key ` set xs"
proof (induction xs rule: rev_induct)
  case Nil
  then show ?case by (simp add: group_by_def)
next
  case (snoc x xs)
  then show ?case
    unfolding group_by_snoc setdefault_append_keys by auto
qed

lemma group_by_map_of:
  "map_of (group_by key xs) k
     = (if k \<in> key ` set xs then Some (filter (\<lambda>x. key x = k) xs) else None)"
proof (induction xs rule: rev_induct)
  case Nil
  then show ?case by (simp add: group_by_def)
next
  case (snoc x xs)
  have "filter (\<lambda>y. key y = key x) xs = []" if "key x \<notin> key ` set xs"
    unfolding filter_empty_conv using that by (metis imageI)
  with snoc show ?case
    unfolding group_by_snoc setdefault_append_map_of by auto
qed

lemma group_by_entry:
  "(k, vs) \<in> set (group_by key xs) \<longleftrightarrow> k \<in> key ` set xs \<and> vs = filter (\<lambda>x. key x = k) xs"
proof -
  have "(k, vs) \<in> set (group_by key xs) \<longleftrightarrow> map_of (group_by key xs) k = Some vs"
    using group_by_keys_distinct [of key xs] by simp
  then show ?thesis by (auto simp: group_by_map_of)
qed

lemma group_by_length: "length (group_by key xs) = card (key ` set xs)"
proof -
  have "length (group_by key xs) = length (map fst (group_by key xs))" by simp
  also have "\<dots> = card (set (map fst (group_by key xs)))"
    using group_by_keys_distinct [of key xs] by (simp only: distinct_card)
  finally show ?thesis by (simp only: group_by_keys)
qed

lemma group_by_cong:
  assumes "\<And>x. x \<in> set xs \<Longrightarrow> f x = g x"
  shows "group_by f xs = group_by g xs"
  using assms by (induction xs rule: rev_induct) (simp_all add: group_by_snoc, simp add: group_by_def)

lemma collect_groups_spec:
  assumes "uf_inv l" "length l = n"
  shows "\<exists>l'. collect_groups n l = Some (l', group_by (root_of l) [0..<n])"
proof -
  let ?I = "\<lambda>pre (s :: nat list \<times> (nat \<times> nat list) list).
      uf_inv (fst s) \<and> length (fst s) = n \<and> (\<forall>i<n. root_of (fst s) i = root_of l i)
      \<and> snd s = group_by (root_of l) pre"
  have "\<exists>s'. for_loop (\<lambda>idx (parent, groups).
        case find_uf parent idx of
          None \<Rightarrow> None
        | Some (parent', root') \<Rightarrow> Some (parent', setdefault_append groups root' idx))
       [0..<n] (l, []) = Some s' \<and> ?I [0..<n] s'"
  proof (rule for_loop_inv [where I = ?I])
    show "?I [] (l, [])" using assms by (simp add: group_by_def)
  next
    fix pre x post and s :: "nat list \<times> (nat \<times> nat list) list"
    assume xs: "[0..<n] = pre @ x # post" and I: "?I pre s"
    obtain p g where s: "s = (p, g)" by (cases s)
    have "x \<in> set [0..<n]" unfolding xs by simp
    then have x: "x < n" by simp
    from I s have p: "uf_inv p" "length p = n" "\<And>i. i < n \<Longrightarrow> root_of p i = root_of l i"
      "g = group_by (root_of l) pre" by auto
    from find_uf_spec [of p x] p x obtain p' where p':
      "find_uf p x = Some (p', root_of p x)" "length p' = n" "uf_inv p'"
      "\<And>i. i < n \<Longrightarrow> root_of p' i = root_of p i" by auto
    show "\<exists>s'. (case s of (parent, groups) \<Rightarrow>
        case find_uf parent x of
          None \<Rightarrow> None
        | Some (parent', root') \<Rightarrow> Some (parent', setdefault_append groups root' x)) = Some s'
        \<and> ?I (pre @ [x]) s'"
      using p' p x s by (simp add: group_by_snoc)
  qed
  then show ?thesis
    unfolding collect_groups_def by (metis prod.collapse)
qed

section \<open>The loops of build_groups as runs of unions\<close>


lemma unions_append:
  "unions (ps @ qs) l = (case unions ps l of None \<Rightarrow> None | Some l' \<Rightarrow> unions qs l')"
  unfolding unions_def by (rule for_loop_append)

lemma for_loop_if_union:
  "for_loop (\<lambda>x l. if P x then union_uf l (f x) (g x) else Some l) xs l
     = unions (map (\<lambda>x. (f x, g x)) (filter P xs)) l"
  by (induction xs arbitrary: l) (auto simp: unions_def split: option.splits)

lemma for_loop_unions:
  "for_loop (\<lambda>x l. unions (F x) l) xs l = unions (concat (map F xs)) l"
proof (induction xs arbitrary: l)
  case Nil
  then show ?case by (simp add: unions_def)
next
  case (Cons x xs)
  then show ?case by (simp add: unions_append split: option.splits)
qed

lemma domain_step_unions:
  "domain_step domain_group_min indices l = unions (domain_pairs domain_group_min indices) l"
proof (cases "int (length indices) \<ge> max 2 domain_group_min")
  case True
  then obtain r rest where ir: "indices = r # rest" by (cases indices) auto
  have "domain_step domain_group_min indices l
      = for_loop (\<lambda>idx parent. union_uf parent r idx) rest l"
    unfolding domain_step_def using True by (simp only: if_True ir list.case)
  also have "\<dots> = unions (map (Pair r) rest) l"
    using for_loop_if_union [of "\<lambda>_. True" "\<lambda>_. r" "\<lambda>x. x" rest l] by simp
  also have "map (Pair r) rest = domain_pairs domain_group_min indices"
    unfolding domain_pairs_def using True by (simp only: if_True ir list.sel)
  finally show ?thesis .
next
  case False
  have "domain_step domain_group_min indices l = Some l"
    unfolding domain_step_def using False by (simp only: if_False)
  moreover have "domain_pairs domain_group_min indices = []"
    unfolding domain_pairs_def using False by (simp only: if_False)
  ultimately show ?thesis by (simp add: unions_def)
qed

lemma domain_loop_unions:
  "for_loop (domain_step domain_group_min) idxss l
     = unions (concat (map (domain_pairs domain_group_min) idxss)) l"
  using for_loop_unions [of "domain_pairs domain_group_min" idxss l]
  by (simp add: domain_step_unions [abs_def])

lemma square_cell: "square n m \<Longrightarrow> i < n \<Longrightarrow> j < n \<Longrightarrow> cell m i j = Some (m ! i ! j)"
  by (auto simp: square_def cell_def list_all_length)

lemma threshold_step_unions:
  assumes "square n m" "i < n"
  shows "threshold_step m threshold n i l
           = unions (map (Pair i) (filter (\<lambda>j. m ! i ! j \<ge> threshold) [i + 1..<n])) l"
proof -
  have "threshold_step m threshold n i l
      = for_loop (\<lambda>j l. if m ! i ! j \<ge> threshold then union_uf l i j else Some l) [i + 1..<n] l"
    unfolding threshold_step_def
    by (rule for_loop_cong) (simp add: square_cell [OF assms])
  then show ?thesis
    using for_loop_if_union [of "\<lambda>j. m ! i ! j \<ge> threshold" "\<lambda>_. i" "\<lambda>j. j" "[i + 1..<n]" l]
    by simp
qed

lemma threshold_loop_unions:
  assumes "square n m"
  shows "for_loop (threshold_step m threshold n) [0..<n] l = unions (threshold_pairs m threshold n) l"
proof -
  have "for_loop (threshold_step m threshold n) [0..<n] l
      = for_loop (\<lambda>i l. unions (map (Pair i) (filter (\<lambda>j. m ! i ! j \<ge> threshold) [i + 1..<n])) l)
          [0..<n] l"
    by (rule for_loop_cong) (simp add: threshold_step_unions [OF assms])
  then show ?thesis
    by (simp add: for_loop_unions threshold_pairs_def)
qed

lemma knn_loop_unions:
  "for_loop (knn_step iter neighbors) [0..<n] l = unions (knn_pairs iter neighbors n) l"
proof -
  have "knn_step iter neighbors
      = (\<lambda>i l. unions (map (Pair i) (filter (\<lambda>j. i \<in> neighbors ! j) (iter (neighbors ! i)))) l)"
  proof (intro ext)
    fix i l
    show "knn_step iter neighbors i l
        = unions (map (Pair i) (filter (\<lambda>j. i \<in> neighbors ! j) (iter (neighbors ! i)))) l"
      unfolding knn_step_def
      using for_loop_if_union [of "\<lambda>j. i \<in> neighbors ! j" "\<lambda>_. i" "\<lambda>j. j" "iter (neighbors ! i)" l]
      by simp
  qed
  then show ?thesis
    by (simp only: for_loop_unions knn_pairs_def)
qed

section \<open>The pairs united by build_groups\<close>


lemma domain_map_of_group_by:
  "domain_map_of tabs
     = group_by (\<lambda>i. tab_domain (tabs ! i)) (filter (\<lambda>i. tab_domain (tabs ! i) \<noteq> []) [0..<length tabs])"
proof (induction tabs rule: rev_induct)
  case Nil
  then show ?case by (simp add: domain_map_of_def group_by_def)
next
  case (snoc t tabs)
  let ?n = "length tabs"
  have f: "filter (\<lambda>i. tab_domain ((tabs @ [t]) ! i) \<noteq> []) [0..<?n]
      = filter (\<lambda>i. tab_domain (tabs ! i) \<noteq> []) [0..<?n]"
    by (rule filter_cong) (simp_all add: nth_append)
  have g: "group_by (\<lambda>i. tab_domain ((tabs @ [t]) ! i)) (filter (\<lambda>i. tab_domain (tabs ! i) \<noteq> []) [0..<?n])
      = group_by (\<lambda>i. tab_domain (tabs ! i)) (filter (\<lambda>i. tab_domain (tabs ! i) \<noteq> []) [0..<?n])"
    by (rule group_by_cong) (simp add: nth_append)
  have step: "domain_map_of (tabs @ [t])
      = (if tab_domain t \<noteq> [] then setdefault_append (domain_map_of tabs) (tab_domain t) ?n
         else domain_map_of tabs)"
    by (simp add: domain_map_of_def enumerate_append_eq)
  show ?case
  proof (cases "tab_domain t \<noteq> []")
    case True
    then show ?thesis
      unfolding step snoc.IH
      by (simp add: f group_by_snoc g)
  next
    case False
    then show ?thesis
      unfolding step snoc.IH by (simp add: f g)
  qed
qed

lemma domain_map_entry:
  "idxs \<in> set (map snd (domain_map_of tabs)) \<longleftrightarrow>
     (\<exists>d. d \<noteq> [] \<and> d \<in> tab_domain ` set tabs
          \<and> idxs = filter (\<lambda>i. tab_domain (tabs ! i) = d) [0..<length tabs])"
proof -
  let ?key = "\<lambda>i. tab_domain (tabs ! i)"
  let ?xs = "filter (\<lambda>i. ?key i \<noteq> []) [0..<length tabs]"
  have img: "d \<in> ?key ` set ?xs \<longleftrightarrow> d \<noteq> [] \<and> d \<in> tab_domain ` set tabs" for d
  proof
    assume "d \<in> ?key ` set ?xs"
    then obtain i where "i < length tabs" "d = tab_domain (tabs ! i)" "d \<noteq> []" by auto
    then show "d \<noteq> [] \<and> d \<in> tab_domain ` set tabs" using nth_mem by blast
  next
    assume "d \<noteq> [] \<and> d \<in> tab_domain ` set tabs"
    then obtain t where "t \<in> set tabs" "d = tab_domain t" "d \<noteq> []" by auto
    then obtain i where "i < length tabs" "tabs ! i = t" by (auto simp: in_set_conv_nth)
    with \<open>d = tab_domain t\<close> \<open>d \<noteq> []\<close> show "d \<in> ?key ` set ?xs"
      by (intro image_eqI [of _ _ i]) simp_all
  qed
  have flt: "filter (\<lambda>x. ?key x = d) ?xs = filter (\<lambda>i. ?key i = d) [0..<length tabs]" if "d \<noteq> []" for d
    using that by (auto intro: filter_cong)
  have "idxs \<in> set (map snd (domain_map_of tabs)) \<longleftrightarrow> (\<exists>d. (d, idxs) \<in> set (group_by ?key ?xs))"
    unfolding domain_map_of_group_by by force
  also have "\<dots> \<longleftrightarrow> (\<exists>d. d \<in> ?key ` set ?xs \<and> idxs = filter (\<lambda>x. ?key x = d) ?xs)"
    by (simp only: group_by_entry)
  also have "\<dots> \<longleftrightarrow> (\<exists>d. d \<noteq> [] \<and> d \<in> tab_domain ` set tabs
          \<and> idxs = filter (\<lambda>i. ?key i = d) [0..<length tabs])"
    using img flt by metis
  finally show ?thesis .
qed

lemma length_filter_nth:
  "length (filter (\<lambda>i. P (xs ! i)) [0..<length xs]) = length (filter P xs)"
proof -
  have "filter P (map (\<lambda>i. xs ! i) [0..<length xs])
      = map (\<lambda>i. xs ! i) (filter (\<lambda>i. P (xs ! i)) [0..<length xs])"
    by (simp add: filter_map comp_def)
  then have "filter P xs = map (\<lambda>i. xs ! i) (filter (\<lambda>i. P (xs ! i)) [0..<length xs])"
    by (simp only: map_nth)
  then show ?thesis by (metis length_map)
qed


lemma those_map_Some: "those (map (\<lambda>x. Some (f x)) xs) = Some (map f xs)"
  by (induction xs) simp_all

lemma those_map_total:
  assumes "\<And>x. x \<in> set xs \<Longrightarrow> \<exists>y. f x = Some y"
  shows "those (map f xs) = Some (map (\<lambda>x. the (f x)) xs)"
proof -
  have "map f xs = map (\<lambda>x. Some (the (f x))) xs"
    by (rule map_cong) (use assms in force)+
  then show ?thesis by (simp only: those_map_Some)
qed

lemma neighbor_set_spec:
  assumes "square n m" "i < n"
  shows "\<exists>S. neighbor_set m threshold knn_k n i = Some S
           \<and> S \<subseteq> {j. j < n \<and> j \<noteq> i \<and> m ! i ! j \<ge> threshold}"
proof -
  let ?js = "filter (\<lambda>j. j \<noteq> i) [0..<n]"
  let ?scored = "map (\<lambda>j. (j, m ! i ! j)) ?js"
  let ?sorted = "rev (sort_key snd (rev ?scored))"
  let ?filtered = "map fst (filter (\<lambda>(j, score). score \<ge> threshold) ?sorted)"
  let ?cut = "if knn_k > 0 then take (nat knn_k) ?filtered else ?filtered"
  have "map (\<lambda>j. map_option (Pair j) (cell m i j)) ?js = map (\<lambda>j. Some (j, m ! i ! j)) ?js"
    by (rule map_cong) (simp_all add: square_cell [OF assms])
  then have "those (map (\<lambda>j. map_option (Pair j) (cell m i j)) ?js) = Some ?scored"
    by (simp only: those_map_Some)
  then have eq: "neighbor_set m threshold knn_k n i = Some (set ?cut)"
    unfolding neighbor_set_def by (simp add: Let_def)
  have "set ?cut \<subseteq> set ?filtered"
    by (cases "knn_k > 0") (simp_all only: if_True if_False set_take_subset subset_refl)
  also have "\<dots> \<subseteq> {j. j < n \<and> j \<noteq> i \<and> m ! i ! j \<ge> threshold}"
    by auto
  finally show ?thesis using eq by blast
qed

lemma neighbors_spec:
  assumes "square n m"
  shows "\<exists>neighbors. those (map (neighbor_set m threshold knn_k n) [0..<n]) = Some neighbors
           \<and> length neighbors = n
           \<and> (\<forall>i<n. neighbors ! i \<subseteq> {j. j < n \<and> j \<noteq> i \<and> m ! i ! j \<ge> threshold})"
proof -
  let ?f = "neighbor_set m threshold knn_k n"
  have ex: "\<exists>S. ?f i = Some S" if "i \<in> set [0..<n]" for i
    using neighbor_set_spec [OF assms, where i = i and threshold = threshold and knn_k = knn_k] that
    by auto
  have t: "those (map ?f [0..<n]) = Some (map (\<lambda>i. the (?f i)) [0..<n])"
    by (rule those_map_total) (rule ex)
  have "the (?f i) \<subseteq> {j. j < n \<and> j \<noteq> i \<and> m ! i ! j \<ge> threshold}" if "i < n" for i
    using neighbor_set_spec [OF assms that, where threshold = threshold and knn_k = knn_k] by auto
  then show ?thesis using t by auto
qed

lemma in_concat_map: "x \<in> set (concat (map F xs)) \<longleftrightarrow> (\<exists>i\<in>set xs. x \<in> set (F i))"
  by auto

lemma threshold_pairs_set:
  "(a, b) \<in> set (threshold_pairs m threshold n) \<longleftrightarrow> a < b \<and> b < n \<and> m ! a ! b \<ge> threshold"
proof
  assume "(a, b) \<in> set (threshold_pairs m threshold n)"
  then have "\<exists>i\<in>set [0..<n].
      (a, b) \<in> set (map (Pair i) (filter (\<lambda>j. m ! i ! j \<ge> threshold) [i + 1..<n]))"
    unfolding threshold_pairs_def by (simp only: in_concat_map)
  then obtain i where
    "(a, b) \<in> set (map (Pair i) (filter (\<lambda>j. m ! i ! j \<ge> threshold) [i + 1..<n]))" by blast
  then have "a = i" "b \<in> set (filter (\<lambda>j. m ! a ! j \<ge> threshold) [a + 1..<n])"
    by auto
  then show "a < b \<and> b < n \<and> m ! a ! b \<ge> threshold" by simp
next
  assume r: "a < b \<and> b < n \<and> m ! a ! b \<ge> threshold"
  then have "(a, b) \<in> set (map (Pair a) (filter (\<lambda>j. m ! a ! j \<ge> threshold) [a + 1..<n]))"
    by simp
  moreover have "a \<in> set [0..<n]" using r by simp
  ultimately show "(a, b) \<in> set (threshold_pairs m threshold n)"
    unfolding threshold_pairs_def by (simp only: in_concat_map) blast
qed

lemma knn_pairs_set:
  assumes "visits iter" "length neighbors = n" "\<forall>i<n. neighbors ! i \<subseteq> {j. j < n \<and> Q i j}"
    "(a, b) \<in> set (knn_pairs iter neighbors n)"
  shows "a < n \<and> b < n \<and> Q a b \<and> Q b a"
proof -
  from assms(4) have a: "a < n" and b: "b \<in> set (iter (neighbors ! a))" "a \<in> neighbors ! b"
    unfolding knn_pairs_def by auto
  have "finite (neighbors ! a)"
    using assms(3) a by (auto intro: finite_subset [of _ "{..<n}"])
  then obtain xs where "neighbors ! a = set xs" using finite_list by metis
  with assms(1) have "set (iter (neighbors ! a)) = neighbors ! a"
    unfolding visits_def by metis
  with b have "b \<in> neighbors ! a" by simp
  with assms(3) a have "b < n" "Q a b" by auto
  with assms(3) b(2) have "Q b a" by auto
  with a \<open>b < n\<close> \<open>Q a b\<close> show ?thesis by simp
qed

lemma domain_pairs_bound:
  assumes "(a, b) \<in> set (concat (map (domain_pairs domain_group_min) (map snd (domain_map_of tabs))))"
  shows "a < length tabs \<and> b < length tabs"
proof -
  from assms obtain idxs where i: "idxs \<in> set (map snd (domain_map_of tabs))"
    "(a, b) \<in> set (domain_pairs domain_group_min idxs)" by auto
  from i(1) have bound: "\<forall>x\<in>set idxs. x < length tabs"
    unfolding domain_map_entry by auto
  from i(2) have ne: "idxs \<noteq> []" and "a = hd idxs" "b \<in> set (tl idxs)"
    unfolding domain_pairs_def by (auto split: if_splits)
  then have "a \<in> set idxs" "b \<in> set idxs"
    by (auto dest: list.set_sel(2))
  with bound show ?thesis by simp
qed

lemma domain_pairs_connect:
  assumes "a < length tabs" "b < length tabs" "tab_domain (tabs ! a) \<noteq> []"
    "tab_domain (tabs ! a) = tab_domain (tabs ! b)"
    "int (length (filter (\<lambda>t. tab_domain t = tab_domain (tabs ! a)) tabs)) \<ge> domain_group_min"
    "a \<noteq> b"
    "\<forall>p\<in>set (concat (map (domain_pairs domain_group_min) (map snd (domain_map_of tabs)))).
        g (fst p) = g (snd p)"
  shows "g a = g b"
proof -
  let ?d = "tab_domain (tabs ! a)"
  let ?idxs = "filter (\<lambda>i. tab_domain (tabs ! i) = ?d) [0..<length tabs]"
  have mem: "?idxs \<in> set (map snd (domain_map_of tabs))"
    unfolding domain_map_entry using assms(1,3) nth_mem by blast
  have ab: "a \<in> set ?idxs" "b \<in> set ?idxs" using assms by simp_all
  have len: "length ?idxs = length (filter (\<lambda>t. tab_domain t = ?d) tabs)"
    by (rule length_filter_nth)
  have "distinct ?idxs" by simp
  have "card {a, b} \<le> card (set ?idxs)"
    using ab by (intro card_mono) simp_all
  also have "\<dots> \<le> length ?idxs" by (rule card_length)
  finally have "2 \<le> length ?idxs" using assms(6) by simp
  with len assms(5) have pairs: "domain_pairs domain_group_min ?idxs = map (Pair (hd ?idxs)) (tl ?idxs)"
    unfolding domain_pairs_def by simp
  have hd: "g (hd ?idxs) = g x" if "x \<in> set (tl ?idxs)" for x
  proof -
    have "(hd ?idxs, x) \<in> set (domain_pairs domain_group_min ?idxs)"
      unfolding pairs using that by simp
    with mem have "(hd ?idxs, x)
        \<in> set (concat (map (domain_pairs domain_group_min) (map snd (domain_map_of tabs))))"
      by (simp only: in_concat_map) blast
    from bspec [OF assms(7) this] show ?thesis by simp
  qed
  have "g x = g (hd ?idxs)" if "x \<in> set ?idxs" for x
  proof -
    from that have "?idxs \<noteq> []" using length_pos_if_in_set by fastforce
    then have "?idxs = hd ?idxs # tl ?idxs" by simp
    with that have "x = hd ?idxs \<or> x \<in> set (tl ?idxs)" by (metis set_ConsD)
    with hd show ?thesis by auto
  qed
  with ab show ?thesis by simp
qed

section \<open>The partition built by build_groups\<close>


lemma coarser_init: "coarser [0..<n] g"
  unfolding coarser_def by (simp add: root_of_init)

lemma union_phase_unions:
  assumes "square (length tabs) m"
  shows "\<exists>neighbors. length neighbors = length tabs
           \<and> (\<forall>i<length tabs. neighbors ! i
                  \<subseteq> {j. j < length tabs \<and> j \<noteq> i \<and> m ! i ! j \<ge> threshold})
           \<and> union_phase iter tabs m threshold domain_group domain_group_min mutual_knn knn_k
               = unions
                   ((if domain_group
                     then concat (map (domain_pairs domain_group_min) (map snd (domain_map_of tabs)))
                     else [])
                    @ (if mutual_knn then knn_pairs iter neighbors (length tabs)
                       else threshold_pairs m threshold (length tabs)))
                   [0..<length tabs]"
proof -
  let ?n = "length tabs"
  let ?dps = "concat (map (domain_pairs domain_group_min) (map snd (domain_map_of tabs)))"
  from neighbors_spec [OF assms, of threshold knn_k] obtain nb where nb:
    "those (map (neighbor_set m threshold knn_k ?n) [0..<?n]) = Some nb" "length nb = ?n"
    "\<forall>i<?n. nb ! i \<subseteq> {j. j < ?n \<and> j \<noteq> i \<and> m ! i ! j \<ge> threshold}" by blast
  have first: "(if domain_group
       then for_loop (domain_step domain_group_min) (map snd (domain_map_of tabs)) [0..<?n]
       else Some [0..<?n]) = unions (if domain_group then ?dps else []) [0..<?n]"
    by (simp add: domain_loop_unions) (simp add: unions_def)
  have second: "(if mutual_knn then
        (case those (map (neighbor_set m threshold knn_k ?n) [0..<?n]) of
           None \<Rightarrow> None
         | Some neighbors \<Rightarrow> for_loop (knn_step iter neighbors) [0..<?n] l)
      else for_loop (threshold_step m threshold ?n) [0..<?n] l)
      = unions (if mutual_knn then knn_pairs iter nb ?n else threshold_pairs m threshold ?n) l" for l
    by (simp add: nb(1) knn_loop_unions threshold_loop_unions [OF assms])
  have "union_phase iter tabs m threshold domain_group domain_group_min mutual_knn knn_k
      = (case unions (if domain_group then ?dps else []) [0..<?n] of
           None \<Rightarrow> None
         | Some l \<Rightarrow> unions (if mutual_knn then knn_pairs iter nb ?n
                            else threshold_pairs m threshold ?n) l)"
    unfolding union_phase_def Let_def first second ..
  then show ?thesis
    using nb(2,3) by (intro exI [of _ nb]) (simp only: unions_append simp_thms)
qed

lemma union_phase_spec:
  assumes sq: "square (length tabs) m" and v: "visits iter"
  shows "\<exists>l. union_phase iter tabs m threshold domain_group domain_group_min mutual_knn knn_k = Some l
           \<and> uf_inv l \<and> length l = length tabs
           \<and> (domain_group \<longrightarrow>
                (\<forall>p\<in>set (concat (map (domain_pairs domain_group_min) (map snd (domain_map_of tabs)))).
                   root_of l (fst p) = root_of l (snd p)))
           \<and> (\<not> mutual_knn \<longrightarrow>
                (\<forall>p\<in>set (threshold_pairs m threshold (length tabs)).
                   root_of l (fst p) = root_of l (snd p)))
           \<and> (\<forall>g :: nat \<Rightarrow> nat.
                (domain_group \<longrightarrow>
                   (\<forall>p\<in>set (concat (map (domain_pairs domain_group_min) (map snd (domain_map_of tabs)))).
                      g (fst p) = g (snd p)))
                \<and> (\<forall>p\<in>set (threshold_pairs m threshold (length tabs)). g (fst p) = g (snd p))
                \<and> mutual_knn
                \<longrightarrow> coarser l g)"
proof -
  let ?n = "length tabs"
  let ?dps = "concat (map (domain_pairs domain_group_min) (map snd (domain_map_of tabs)))"
  from union_phase_unions [OF sq, of threshold iter domain_group domain_group_min mutual_knn knn_k]
  obtain nb where nb: "length nb = ?n"
    "\<forall>i<?n. nb ! i \<subseteq> {j. j < ?n \<and> (j \<noteq> i \<and> m ! i ! j \<ge> threshold)}"
    and u: "union_phase iter tabs m threshold domain_group domain_group_min mutual_knn knn_k
      = unions ((if domain_group then ?dps else [])
                @ (if mutual_knn then knn_pairs iter nb ?n else threshold_pairs m threshold ?n))
          [0..<?n]"
    by auto
  let ?ps = "(if domain_group then ?dps else [])
             @ (if mutual_knn then knn_pairs iter nb ?n else threshold_pairs m threshold ?n)"
  have knn: "a < ?n \<and> b < ?n \<and> (b \<noteq> a \<and> m ! a ! b \<ge> threshold) \<and> (a \<noteq> b \<and> m ! b ! a \<ge> threshold)"
    if "(a, b) \<in> set (knn_pairs iter nb ?n)" for a b
    using knn_pairs_set [OF v nb(1) nb(2) that] .
  have bound: "\<forall>p\<in>set ?ps. fst p < length [0..<?n] \<and> snd p < length [0..<?n]"
  proof
    fix p assume p: "p \<in> set ?ps"
    obtain a b where ab: "p = (a, b)" by (cases p)
    from p ab consider "(a, b) \<in> set ?dps" | "(a, b) \<in> set (knn_pairs iter nb ?n)"
      | "(a, b) \<in> set (threshold_pairs m threshold ?n)"
      by (auto split: if_splits)
    then have "a < ?n \<and> b < ?n"
    proof cases
      case 1
      then show ?thesis by (rule domain_pairs_bound)
    next
      case 2
      then show ?thesis using knn by blast
    next
      case 3
      then show ?thesis unfolding threshold_pairs_set by simp
    qed
    with ab show "fst p < length [0..<?n] \<and> snd p < length [0..<?n]" by simp
  qed
  from unions_spec [OF uf_inv_init bound] obtain l where l:
    "unions ?ps [0..<?n] = Some l" "length l = ?n" "uf_inv l"
    "\<forall>p\<in>set ?ps. root_of l (fst p) = root_of l (snd p)"
    by auto
  have co: "coarser l g"
    if d: "domain_group \<longrightarrow> (\<forall>p\<in>set ?dps. g (fst p) = g (snd p))"
      and t: "\<forall>p\<in>set (threshold_pairs m threshold ?n). g (fst p) = g (snd p)"
      and k: mutual_knn
    for g :: "nat \<Rightarrow> nat"
  proof (rule unions_coarser [OF uf_inv_init bound l(1) coarser_init])
    show "\<forall>p\<in>set ?ps. g (fst p) = g (snd p)"
    proof
      fix p assume p: "p \<in> set ?ps"
      obtain a b where ab: "p = (a, b)" by (cases p)
      from p ab k consider "domain_group" "(a, b) \<in> set ?dps" | "(a, b) \<in> set (knn_pairs iter nb ?n)"
        by (auto split: if_splits)
      then have "g a = g b"
      proof cases
        case 1
        with d show ?thesis by fastforce
      next
        case 2
        from knn [OF 2] have r: "a < ?n" "b < ?n" "a \<noteq> b" "m ! a ! b \<ge> threshold"
          "m ! b ! a \<ge> threshold" by auto
        show ?thesis
        proof (cases "a < b")
          case True
          with r have "(a, b) \<in> set (threshold_pairs m threshold ?n)"
            unfolding threshold_pairs_set by simp
          with t show ?thesis by fastforce
        next
          case False
          with r have "(b, a) \<in> set (threshold_pairs m threshold ?n)"
            unfolding threshold_pairs_set by simp
          with t show ?thesis by fastforce
        qed
      qed
      with ab show "g (fst p) = g (snd p)" by simp
    qed
  qed
  have dg: "\<forall>p\<in>set ?dps. root_of l (fst p) = root_of l (snd p)" if domain_group
    using l(4) that by simp
  have th: "\<forall>p\<in>set (threshold_pairs m threshold ?n). root_of l (fst p) = root_of l (snd p)"
    if "\<not> mutual_knn"
    using l(4) that by simp
  show ?thesis
    using u l(1-3) dg th co by (intro exI [of _ l]) (simp only: simp_thms, blast)
qed

section \<open>The groups returned by build_groups\<close>


lemma emit_groups_length: "length (fst (emit_groups tabs groups_map)) = length groups_map"
  by (simp add: emit_groups_def Let_def)

lemma map_enumerate_snd: "map (\<lambda>(i, x). f x) (enumerate k xs) = map f xs"
  by (induction xs arbitrary: k) simp_all

lemma emit_groups_ids:
  "group_tab_ids ` set (fst (emit_groups tabs groups_map))
     = (\<lambda>(r, indices). map (\<lambda>i. tab_id (tabs ! i)) indices) ` set groups_map"
proof -
  let ?mk = "\<lambda>(gid, (r, indices)).
      \<lparr>group_gid = gid, group_tab_ids = map (\<lambda>i. tab_id (tabs ! i)) indices,
       group_size = length indices\<rparr>"
  let ?h = "\<lambda>(r, indices). map (\<lambda>i. tab_id (tabs ! i)) indices"
  have "map group_tab_ids (map ?mk (enumerate 0 groups_map))
      = map (\<lambda>(i, x). ?h x) (enumerate 0 groups_map)"
    by (simp add: case_prod_beta)
  also have "\<dots> = map ?h groups_map"
    by (rule map_enumerate_snd)
  finally have "map group_tab_ids (map ?mk (enumerate 0 groups_map)) = map ?h groups_map" .
  then have "set (map group_tab_ids (map ?mk (enumerate 0 groups_map))) = set (map ?h groups_map)"
    by (rule arg_cong)
  then have "group_tab_ids ` set (map ?mk (enumerate 0 groups_map)) = ?h ` set groups_map"
    by (simp only: set_map)
  then show ?thesis
    by (simp only: emit_groups_def Let_def fst_conv)
qed

lemma build_groups_spec:
  assumes "square (length tabs) m" "visits iter"
  shows "\<exists>l groups t.
           union_phase iter tabs m threshold domain_group domain_group_min mutual_knn knn_k = Some l
           \<and> uf_inv l \<and> length l = length tabs
           \<and> build_groups iter tabs m threshold domain_group domain_group_min mutual_knn knn_k
               = Some (groups, t)
           \<and> length groups = card (root_of l ` {..<length tabs})
           \<and> group_tab_ids ` set groups
               = (\<lambda>r. map (\<lambda>i. tab_id (tabs ! i)) (filter (\<lambda>i. root_of l i = r) [0..<length tabs]))
                   ` root_of l ` {..<length tabs}"
proof -
  let ?n = "length tabs"
  from union_phase_spec [OF assms, of threshold domain_group domain_group_min mutual_knn knn_k]
  obtain l where l:
    "union_phase iter tabs m threshold domain_group domain_group_min mutual_knn knn_k = Some l"
    "uf_inv l" "length l = ?n" by blast
  from collect_groups_spec [OF l(2,3)] obtain l' where
    c: "collect_groups ?n l = Some (l', group_by (root_of l) [0..<?n])" by blast
  let ?gm = "group_by (root_of l) [0..<?n]"
  obtain groups t where e: "emit_groups tabs ?gm = (groups, t)" by (cases "emit_groups tabs ?gm")
  have b: "build_groups iter tabs m threshold domain_group domain_group_min mutual_knn knn_k
      = Some (groups, t)"
    by (simp add: build_groups_def l(1) c e)
  have len: "length groups = card (root_of l ` {..<?n})"
    using emit_groups_length [of tabs ?gm] e
    by (simp add: group_by_length atLeast0LessThan)
  have "set ?gm = (\<lambda>r. (r, filter (\<lambda>i. root_of l i = r) [0..<?n])) ` root_of l ` {..<?n}"
    by (auto simp: group_by_entry atLeast0LessThan)
  then have "group_tab_ids ` set groups
      = (\<lambda>(r, indices). map (\<lambda>i. tab_id (tabs ! i)) indices)
          ` (\<lambda>r. (r, filter (\<lambda>i. root_of l i = r) [0..<?n])) ` root_of l ` {..<?n}"
    using emit_groups_ids [of tabs ?gm] e by simp
  then have ids: "group_tab_ids ` set groups
      = (\<lambda>r. map (\<lambda>i. tab_id (tabs ! i)) (filter (\<lambda>i. root_of l i = r) [0..<?n]))
          ` root_of l ` {..<?n}"
    by (simp add: image_image)
  show ?thesis
    using l b len ids by blast
qed

lemma coarser_card:
  assumes "coarser l g" "length l = n"
  shows "card (g ` {..<n}) \<le> card (root_of l ` {..<n})"
proof -
  define h where "h r = g (SOME i. i < n \<and> root_of l i = r)" for r
  have "g i = h (root_of l i)" if "i < n" for i
  proof -
    have "(SOME j. j < n \<and> root_of l j = root_of l i) < n
        \<and> root_of l (SOME j. j < n \<and> root_of l j = root_of l i) = root_of l i"
      by (rule someI [of "\<lambda>j. j < n \<and> root_of l j = root_of l i" i]) (simp add: that)
    with assms that show ?thesis
      unfolding coarser_def h_def by metis
  qed
  then have "g ` {..<n} = h ` root_of l ` {..<n}"
    by (auto simp: image_image intro!: image_cong)
  then show ?thesis by (simp add: card_image_le)
qed

section \<open>Properties of the cluster builder\<close>


lemma coarserD:
  "coarser l g \<Longrightarrow> i < length l \<Longrightarrow> j < length l \<Longrightarrow> root_of l i = root_of l j \<Longrightarrow> g i = g j"
  unfolding coarser_def by blast

text \<open>
  C7. On a tab list with a square similarity matrix, the partition that \<open>build_groups\<close>
  returns with mutual-KNN enabled refines the one it returns with mutual-KNN disabled, all
  other arguments equal: both calls return, every group of the first lies within a group
  of the second, and the second has at most as many groups.
\<close>

theorem mutual_knn_refines_threshold:
  assumes "square (length tabs) m" "visits iter"
  shows "\<exists>groups_knn t_knn groups_thr t_thr.
           build_groups iter tabs m threshold domain_group domain_group_min True knn_k
             = Some (groups_knn, t_knn)
           \<and> build_groups iter tabs m threshold domain_group domain_group_min False knn_k
               = Some (groups_thr, t_thr)
           \<and> (\<forall>g\<in>set groups_knn. \<exists>g'\<in>set groups_thr.
                  set (group_tab_ids g) \<subseteq> set (group_tab_ids g'))
           \<and> length groups_thr \<le> length groups_knn"
proof -
  let ?n = "length tabs"
  let ?dps = "concat (map (domain_pairs domain_group_min) (map snd (domain_map_of tabs)))"
  let ?ids = "\<lambda>l r. map (\<lambda>i. tab_id (tabs ! i)) (filter (\<lambda>i. root_of l i = r) [0..<?n])"
  from build_groups_spec [OF assms, of threshold domain_group domain_group_min True knn_k]
  obtain l1 groups1 t1 where k:
    "union_phase iter tabs m threshold domain_group domain_group_min True knn_k = Some l1"
    "length l1 = ?n"
    "build_groups iter tabs m threshold domain_group domain_group_min True knn_k = Some (groups1, t1)"
    "length groups1 = card (root_of l1 ` {..<?n})"
    "group_tab_ids ` set groups1 = ?ids l1 ` root_of l1 ` {..<?n}"
    by blast
  from build_groups_spec [OF assms, of threshold domain_group domain_group_min False knn_k]
  obtain l2 groups2 t2 where f:
    "union_phase iter tabs m threshold domain_group domain_group_min False knn_k = Some l2"
    "length l2 = ?n"
    "build_groups iter tabs m threshold domain_group domain_group_min False knn_k = Some (groups2, t2)"
    "length groups2 = card (root_of l2 ` {..<?n})"
    "group_tab_ids ` set groups2 = ?ids l2 ` root_of l2 ` {..<?n}"
    by blast
  from union_phase_spec [OF assms, of threshold domain_group domain_group_min False knn_k] f(1)
  have low: "domain_group \<longrightarrow> (\<forall>p\<in>set ?dps. root_of l2 (fst p) = root_of l2 (snd p))"
    "\<forall>p\<in>set (threshold_pairs m threshold ?n). root_of l2 (fst p) = root_of l2 (snd p)"
    by auto
  from union_phase_spec [OF assms, of threshold domain_group domain_group_min True knn_k] k(1)
  have "\<forall>g :: nat \<Rightarrow> nat.
      (domain_group \<longrightarrow> (\<forall>p\<in>set ?dps. g (fst p) = g (snd p)))
      \<and> (\<forall>p\<in>set (threshold_pairs m threshold ?n). g (fst p) = g (snd p)) \<and> True
      \<longrightarrow> coarser l1 g"
    by auto
  with low have co: "coarser l1 (root_of l2)" by blast
  have sub: "\<exists>g'\<in>set groups2. set (group_tab_ids g) \<subseteq> set (group_tab_ids g')"
    if "g \<in> set groups1" for g
  proof -
    from that k(5) have "group_tab_ids g \<in> ?ids l1 ` root_of l1 ` {..<?n}" by blast
    then obtain a where a: "a < ?n" "group_tab_ids g = ?ids l1 (root_of l1 a)" by auto
    from a(1) f(5) have "?ids l2 (root_of l2 a) \<in> group_tab_ids ` set groups2" by blast
    then obtain g' where g': "g' \<in> set groups2" "group_tab_ids g' = ?ids l2 (root_of l2 a)"
      by auto
    have "root_of l2 i = root_of l2 a" if "i < ?n" "root_of l1 i = root_of l1 a" for i
      by (rule coarserD [OF co]) (simp_all add: k(2) that a(1))
    then have "set (?ids l1 (root_of l1 a)) \<subseteq> set (?ids l2 (root_of l2 a))"
      by auto
    then have "set (group_tab_ids g) \<subseteq> set (group_tab_ids g')"
      by (simp only: a(2) g'(2))
    with g'(1) show ?thesis by (rule bexI [rotated])
  qed
  have len: "length groups2 \<le> length groups1"
    unfolding k(4) f(4) by (rule coarser_card [OF co k(2)])
  show ?thesis
  proof (intro exI conjI ballI)
    show "build_groups iter tabs m threshold domain_group domain_group_min True knn_k
        = Some (groups1, t1)" by (rule k(3))
    show "build_groups iter tabs m threshold domain_group domain_group_min False knn_k
        = Some (groups2, t2)" by (rule f(3))
    show "\<exists>g'\<in>set groups2. set (group_tab_ids g) \<subseteq> set (group_tab_ids g')"
      if "g \<in> set groups1" for g using that by (rule sub)
    show "length groups2 \<le> length groups1" by (rule len)
  qed
qed

theorem mutual_knn_refines_threshold_witness:
  "square (length chain_tabs) chain_matrix \<and> visits sorted_list_of_set
   \<and> (\<exists>groups_knn t_knn groups_thr t_thr.
         build_groups sorted_list_of_set chain_tabs chain_matrix (1 / 4) True 2 True 1
           = Some (groups_knn, t_knn)
         \<and> build_groups sorted_list_of_set chain_tabs chain_matrix (1 / 4) True 2 False 1
             = Some (groups_thr, t_thr)
         \<and> map group_tab_ids groups_knn = [[0, 1], [2]]
         \<and> map group_tab_ids groups_thr = [[0, 1, 2]]
         \<and> length groups_thr \<le> length groups_knn)"
proof -
  have sq: "square (length chain_tabs) chain_matrix"
    by (simp add: chain_tabs_def chain_matrix_def square_def)
  have v: "visits sorted_list_of_set"
    by (simp add: visits_def)
  from mutual_knn_refines_threshold [OF sq v, of "1 / 4" True 2 1]
  obtain groups_knn t_knn groups_thr t_thr where r:
    "build_groups sorted_list_of_set chain_tabs chain_matrix (1 / 4) True 2 True 1
       = Some (groups_knn, t_knn)"
    "build_groups sorted_list_of_set chain_tabs chain_matrix (1 / 4) True 2 False 1
       = Some (groups_thr, t_thr)"
    "length groups_thr \<le> length groups_knn"
    by blast
  have "map_option (map group_tab_ids \<circ> fst)
      (build_groups sorted_list_of_set chain_tabs chain_matrix (1 / 4) True 2 True 1)
      = Some [[0, 1], [2]]"
    by code_simp
  with r(1) have k: "map group_tab_ids groups_knn = [[0, 1], [2]]" by simp
  have "map_option (map group_tab_ids \<circ> fst)
      (build_groups sorted_list_of_set chain_tabs chain_matrix (1 / 4) True 2 False 1)
      = Some [[0, 1, 2]]"
    by code_simp
  with r(2) have t: "map group_tab_ids groups_thr = [[0, 1, 2]]" by simp
  from sq v r k t show ?thesis by simp
qed

text \<open>
  C9. With domain grouping enabled and whatever the similarities are, \<open>build_groups\<close>
  returns, and for every non-empty domain that at least \<open>domain_group_min\<close> tabs share,
  one group holds all of its tabs. When all tabs share one non-empty domain and there are
  at least \<open>domain_group_min\<close> of them (three tabs and a minimum of 2, for instance), the
  result is exactly one group.
\<close>

theorem domain_grouping_unites:
  assumes "square (length tabs) m" "visits iter"
  shows "\<exists>groups t.
           build_groups iter tabs m threshold True domain_group_min mutual_knn knn_k = Some (groups, t)
           \<and> (\<forall>d. d \<noteq> [] \<and> d \<in> tab_domain ` set tabs
                    \<and> domain_group_min \<le> int (length (filter (\<lambda>t. tab_domain t = d) tabs))
                 \<longrightarrow> (\<exists>g\<in>set groups. \<forall>i<length tabs.
                        tab_domain (tabs ! i) = d \<longrightarrow> tab_id (tabs ! i) \<in> set (group_tab_ids g)))
           \<and> (tabs \<noteq> [] \<and> domain_group_min \<le> int (length tabs)
                \<and> (\<exists>d. d \<noteq> [] \<and> (\<forall>t\<in>set tabs. tab_domain t = d))
              \<longrightarrow> length groups = 1)"
proof -
  let ?n = "length tabs"
  let ?dps = "concat (map (domain_pairs domain_group_min) (map snd (domain_map_of tabs)))"
  let ?ids = "\<lambda>l r. map (\<lambda>i. tab_id (tabs ! i)) (filter (\<lambda>i. root_of l i = r) [0..<?n])"
  from build_groups_spec [OF assms, of threshold True domain_group_min mutual_knn knn_k]
  obtain l groups t where b:
    "union_phase iter tabs m threshold True domain_group_min mutual_knn knn_k = Some l"
    "length l = ?n"
    "build_groups iter tabs m threshold True domain_group_min mutual_knn knn_k = Some (groups, t)"
    "length groups = card (root_of l ` {..<?n})"
    "group_tab_ids ` set groups = ?ids l ` root_of l ` {..<?n}"
    by blast
  from union_phase_spec [OF assms, of threshold True domain_group_min mutual_knn knn_k] b(1)
  have dps: "\<forall>p\<in>set ?dps. root_of l (fst p) = root_of l (snd p)" by auto
  have same: "root_of l i = root_of l a"
    if "a < ?n" "i < ?n" "tab_domain (tabs ! a) \<noteq> []" "tab_domain (tabs ! i) = tab_domain (tabs ! a)"
      "domain_group_min \<le> int (length (filter (\<lambda>t. tab_domain t = tab_domain (tabs ! a)) tabs))"
    for a i
  proof (cases "i = a")
    case True
    then show ?thesis by simp
  next
    case False
    from domain_pairs_connect [OF that(1,2,3) that(4) [symmetric] that(5) _ dps] False
    show ?thesis by simp
  qed
  have one: "\<exists>g\<in>set groups. \<forall>i<?n. tab_domain (tabs ! i) = d \<longrightarrow> tab_id (tabs ! i) \<in> set (group_tab_ids g)"
    if d: "d \<noteq> []" "d \<in> tab_domain ` set tabs"
      "domain_group_min \<le> int (length (filter (\<lambda>t. tab_domain t = d) tabs))" for d
  proof -
    from d(2) obtain a where a: "a < ?n" "tab_domain (tabs ! a) = d"
      by (auto simp: in_set_conv_nth)
    from a(1) b(5) have "?ids l (root_of l a) \<in> group_tab_ids ` set groups" by blast
    then obtain g where g: "g \<in> set groups" "group_tab_ids g = ?ids l (root_of l a)" by auto
    have "tab_id (tabs ! i) \<in> set (group_tab_ids g)" if "i < ?n" "tab_domain (tabs ! i) = d" for i
    proof -
      have "root_of l i = root_of l a"
      proof (rule same [OF a(1) that(1)])
        show "tab_domain (tabs ! a) \<noteq> []" using a(2) d(1) by simp
        show "tab_domain (tabs ! i) = tab_domain (tabs ! a)" using a(2) that(2) by simp
        show "domain_group_min \<le> int (length (filter (\<lambda>t. tab_domain t = tab_domain (tabs ! a)) tabs))"
          using a(2) d(3) by simp
      qed
      with that(1) show ?thesis unfolding g(2) by simp
    qed
    with g(1) show ?thesis by blast
  qed
  have single: "length groups = 1"
    if "tabs \<noteq> []" "domain_group_min \<le> int (length tabs)"
      "\<exists>d. d \<noteq> [] \<and> (\<forall>t\<in>set tabs. tab_domain t = d)"
  proof -
    from that(3) obtain d where d: "d \<noteq> []" "\<forall>t\<in>set tabs. tab_domain t = d" by blast
    then have all: "filter (\<lambda>t. tab_domain t = d) tabs = tabs" by simp
    from that(1) have pos: "0 < ?n" by simp
    have dom: "tab_domain (tabs ! i) = d" if "i < ?n" for i
      using d(2) that nth_mem by blast
    have r0: "root_of l i = root_of l 0" if "i < ?n" for i
    proof (rule same [OF pos that])
      show "tab_domain (tabs ! 0) \<noteq> []" using dom [OF pos] d(1) by simp
      show "tab_domain (tabs ! i) = tab_domain (tabs ! 0)" using dom [OF pos] dom [OF that] by simp
      show "domain_group_min \<le> int (length (filter (\<lambda>t. tab_domain t = tab_domain (tabs ! 0)) tabs))"
        using dom [OF pos] all \<open>domain_group_min \<le> int ?n\<close> by simp
    qed
    have "root_of l ` {..<?n} = {root_of l 0}"
    proof (intro equalityI subsetI)
      fix x assume "x \<in> root_of l ` {..<?n}"
      then obtain i where "i < ?n" "x = root_of l i" by blast
      then show "x \<in> {root_of l 0}" using r0 [of i] by simp
    next
      fix x assume "x \<in> {root_of l 0}"
      then show "x \<in> root_of l ` {..<?n}" using pos by blast
    qed
    then show ?thesis unfolding b(4) by simp
  qed
  show ?thesis
  proof (intro exI conjI allI impI)
    show "build_groups iter tabs m threshold True domain_group_min mutual_knn knn_k = Some (groups, t)"
      by (rule b(3))
    show "\<exists>g\<in>set groups. \<forall>i<?n. tab_domain (tabs ! i) = d \<longrightarrow> tab_id (tabs ! i) \<in> set (group_tab_ids g)"
      if "d \<noteq> [] \<and> d \<in> tab_domain ` set tabs
          \<and> domain_group_min \<le> int (length (filter (\<lambda>t. tab_domain t = d) tabs))" for d
      using that by (intro one) simp_all
    show "length groups = 1"
      if "tabs \<noteq> [] \<and> domain_group_min \<le> int (length tabs)
          \<and> (\<exists>d. d \<noteq> [] \<and> (\<forall>t\<in>set tabs. tab_domain t = d))"
      using that by (intro single) simp_all
  qed
qed

theorem domain_grouping_unites_witness:
  "square (length same_domain_tabs) zero_matrix \<and> visits sorted_list_of_set
   \<and> (\<exists>groups t.
         build_groups sorted_list_of_set same_domain_tabs zero_matrix (1 / 4) True 2 True 6
           = Some (groups, t)
         \<and> map group_tab_ids groups = [[0, 1, 2]]
         \<and> length groups = 1)"
proof -
  have sq: "square (length same_domain_tabs) zero_matrix"
    by (simp add: same_domain_tabs_def zero_matrix_def square_def)
  have v: "visits sorted_list_of_set"
    by (simp add: visits_def)
  from domain_grouping_unites [OF sq v, of "1 / 4" 2 True 6]
  obtain groups t where r:
    "build_groups sorted_list_of_set same_domain_tabs zero_matrix (1 / 4) True 2 True 6
       = Some (groups, t)"
    "same_domain_tabs \<noteq> [] \<and> 2 \<le> int (length same_domain_tabs)
       \<and> (\<exists>d. d \<noteq> [] \<and> (\<forall>t\<in>set same_domain_tabs. tab_domain t = d))
     \<longrightarrow> length groups = 1"
    by blast
  have "\<forall>t\<in>set same_domain_tabs. tab_domain t = ''a.com''"
    by (simp add: same_domain_tabs_def example_tab_def)
  then have "\<exists>d. d \<noteq> [] \<and> (\<forall>t\<in>set same_domain_tabs. tab_domain t = d)"
    by (intro exI [of _ "''a.com''"]) simp
  moreover have "same_domain_tabs \<noteq> [] \<and> 2 \<le> int (length same_domain_tabs)"
    by (simp add: same_domain_tabs_def)
  ultimately have one: "length groups = 1" using r(2) by blast
  have "map_option (map group_tab_ids \<circ> fst)
      (build_groups sorted_list_of_set same_domain_tabs zero_matrix (1 / 4) True 2 True 6)
      = Some [[0, 1, 2]]"
    by code_simp
  with r(1) have "map group_tab_ids groups = [[0, 1, 2]]" by simp
  with sq v r(1) one show ?thesis by simp
qed

end
